theory Spec2Isabelle
  imports Complex_Main
begin

section \<open>The live trading engine of kuegi\_bot (trade\_engine.py)\<close>

text \<open>
  The theory embeds \<^verbatim>\<open>LiveTrading\<close> of \<^verbatim>\<open>kuegi_bot/trade_engine.py\<close>: the bar
  merge of \<^verbatim>\<open>update_bars\<close>, the order reconciliation of \<^verbatim>\<open>update_account\<close>, the
  constructor, \<^verbatim>\<open>exit\<close>, \<^verbatim>\<open>handle_tick\<close> and \<^verbatim>\<open>run_loop\<close>.

  Python mutates \<^verbatim>\<open>self\<close> in place and raises exceptions. Here every method takes the
  engine state and returns the new one; a raised exception is a value of \<open>error\<close>
  returned beside the state as it stands when the exception leaves the method.
  Prices and volumes are Python floats; nothing below depends on their arithmetic, so
  they are a type parameter \<open>'p\<close> with an order and an addition and no law assumed.
\<close>

subsection \<open>Exceptions\<close>

text \<open>
  The exceptions the engine meets: its own IndexError, the \<^verbatim>\<open>AuthenticationError\<close>
  of \<^verbatim>\<open>kuegi_bot.utils.errors\<close>, any other \<^verbatim>\<open>Exception\<close>, and the exceptions that
  derive from \<^verbatim>\<open>BaseException\<close> only, which \<^verbatim>\<open>except Exception\<close> does not catch.
\<close>

datatype error =
  IndexError | AuthenticationError | OtherError string | KeyboardInterrupt | SystemExit

fun is_exception :: "error \<Rightarrow> bool" where
  "is_exception KeyboardInterrupt = False"
| "is_exception SystemExit = False"
| "is_exception err = True"

subsection \<open>Bars\<close>

text \<open>
  \<^verbatim>\<open>Bar\<close> is declared in \<^verbatim>\<open>kuegi_bot/utils/trading_classes.py\<close>. The fields are those
  the engine reads and writes: the constructor arguments of line 121 and the flag
  \<^verbatim>\<open>did_change\<close> of line 160. Subbars are bars themselves. The field \<^verbatim>\<open>open\<close> is
  named \<open>open_price\<close>.
\<close>

datatype 'p bar = Bar
  (tstamp: int)
  (open_price: 'p)
  (high: 'p)
  (low: 'p)
  (close: 'p)
  (volume: 'p)
  (subbars: "'p bar list")
  (did_change: bool)

text \<open>
  Modelled from the spec: \<^verbatim>\<open>Bar.add_subbar\<close> (of trading\_classes.py) is called at lines
  126 and 131. The spec has a bar's open, high, low, close and volume derivable from its
  subbars, a touched bar marked changed, and the merge comparing each subbar with
  ``the running merged subbar'', which the engine reads at \<^verbatim>\<open>newBar.subbars[0]\<close>:
  the added subbar becomes index 0, high and low are widened (Python's \<^verbatim>\<open>max\<close> and
  \<^verbatim>\<open>min\<close> keep their first argument on a tie), close is the added subbar's, volume
  is summed. The bucket timestamp and the open are untouched.
\<close>

definition add_subbar :: "'p::{ord,plus} bar \<Rightarrow> 'p bar \<Rightarrow> 'p bar" where
  "add_subbar bar subbar =
     Bar (tstamp bar) (open_price bar)
       (if high bar < high subbar then high subbar else high bar)
       (if low subbar < low bar then low subbar else low bar)
       (close subbar)
       (volume bar + volume subbar)
       (subbar # subbars bar)
       True"

text \<open>
  Modelled from the spec: the constructor \<^verbatim>\<open>Bar(tstamp, open, high, low, close, volume,
  subbars)\<close> (of trading\_classes.py) is called at line 121. The spec has a bar whose
  content changed, replaced or newly inserted, marked \<^verbatim>\<open>changed\<close>: a bar just built
  carries the flag.
\<close>

definition new_bar ::
  "int \<Rightarrow> 'p \<Rightarrow> 'p \<Rightarrow> 'p \<Rightarrow> 'p \<Rightarrow> 'p \<Rightarrow> 'p bar list \<Rightarrow> 'p bar" where
  [simp]: "new_bar t op hi lo cl vol subs = Bar t op hi lo cl vol subs True"

text \<open>
  Lines 124 to 128: \<^verbatim>\<open>for sub in reversed(self.bars[0].subbars[:-1])\<close>, adding while the
  subbar is older than \<open>t\<close> = \<^verbatim>\<open>b.subbars[-1].tstamp\<close>, leaving the loop at the first
  one that is not. The list argument is in iteration order.
\<close>

fun add_older_subbars :: "int \<Rightarrow> 'p::{ord,plus} bar \<Rightarrow> 'p bar list \<Rightarrow> 'p bar" where
  "add_older_subbars t newBar [] = newBar"
| "add_older_subbars t newBar (sub # subs) =
     (if tstamp sub < t then add_older_subbars t (add_subbar newBar sub) subs
      else newBar)"

text \<open>
  Lines 129 to 133: \<^verbatim>\<open>for sub in reversed(b.subbars)\<close>, adding each subbar newer
  than \<^verbatim>\<open>newBar.subbars[0]\<close> and skipping the others. Reading index 0 of an empty
  list raises IndexError.
\<close>

fun add_newer_subbars :: "'p::{ord,plus} bar \<Rightarrow> 'p bar list \<Rightarrow> error + 'p bar" where
  "add_newer_subbars newBar [] = Inr newBar"
| "add_newer_subbars newBar (sub # subs) =
     (case subbars newBar of
        [] \<Rightarrow> Inl IndexError
      | newest # _ \<Rightarrow>
          if tstamp sub > tstamp newest then add_newer_subbars (add_subbar newBar sub) subs
          else add_newer_subbars newBar subs)"

text \<open>
  Lines 116 to 134, the branch \<^verbatim>\<open>b.tstamp == self.bars[0].tstamp\<close>: \<open>head\<close> is
  \<^verbatim>\<open>self.bars[0]\<close>, the result is the new \<^verbatim>\<open>self.bars[0]\<close>. \<^verbatim>\<open>xs[-1]\<close> of an empty
  list raises IndexError; the incoming bar's subbars are read first.
\<close>

definition merge_head :: "'p::{ord,plus} bar \<Rightarrow> 'p bar \<Rightarrow> error + 'p bar" where
  "merge_head head b =
     (if subbars b = [] then Inl IndexError
      else if subbars head = [] then Inl IndexError
      else if tstamp (last (subbars b)) = tstamp (last (subbars head)) then Inr b
      else
        let first = last (subbars head);
            newBar = new_bar (tstamp b) (open_price first) (high first) (low first)
                       (close first) (volume first) [first];
            newBar = add_older_subbars (tstamp (last (subbars b))) newBar
                       (rev (butlast (subbars head)))
        in add_newer_subbars newBar (rev (subbars b)))"

text \<open>
  Lines 112 to 136, the body of \<^verbatim>\<open>for b in reversed(new_bars)\<close>. \<^verbatim>\<open>self.bars[0]\<close> of an
  empty list raises IndexError. An exception leaves \<^verbatim>\<open>self.bars\<close> as it was before the
  step: both reads that can raise come before the assignment.
\<close>

fun update_bars_step :: "'p::{ord,plus} bar list \<Rightarrow> 'p bar \<Rightarrow> error + 'p bar list" where
  "update_bars_step [] b = Inl IndexError"
| "update_bars_step (head # older) b =
     (if tstamp b < tstamp head then Inr (head # older)
      else if tstamp b = tstamp head then
        (case merge_head head b of
           Inl e \<Rightarrow> Inl e
         | Inr merged \<Rightarrow> Inr (merged # older))
      else Inr (b # head # older))"

text \<open>
  The loop of line 111 over the bars in iteration order. It returns \<^verbatim>\<open>self.bars\<close>
  and the exception that ended the loop, if any.
\<close>

fun update_bars_loop ::
  "'p::{ord,plus} bar list \<Rightarrow> 'p bar list \<Rightarrow> 'p bar list \<times> error option" where
  "update_bars_loop bars [] = (bars, None)"
| "update_bars_loop bars (b # bs) =
     (case update_bars_step bars b of
        Inl e \<Rightarrow> (bars, Some e)
      | Inr bars' \<Rightarrow> update_bars_loop bars' bs)"

text \<open>Lines 111 to 136: the incremental merge of a batch \<^verbatim>\<open>new_bars\<close>.\<close>

definition merge_incremental ::
  "'p::{ord,plus} bar list \<Rightarrow> 'p bar list \<Rightarrow> 'p bar list \<times> error option" where
  "merge_incremental bars new_bars = update_bars_loop bars (rev new_bars)"

subsection \<open>Orders and the account\<close>

text \<open>
  \<^verbatim>\<open>Order\<close> and \<^verbatim>\<open>Account\<close> are declared in trading\_classes.py. The fields are those
  the engine reads and writes; \<^verbatim>\<open>id\<close> is named \<open>order_id\<close>. An order's other
  attributes live in the record's extension. The balance stands for the balances
  that the exchange fills in.
\<close>

record 'p order =
  order_id :: string
  active :: bool
  executed_amount :: 'p
  executed_price :: "'p option"

record 'p account =
  balance :: 'p
  open_orders :: "'p order list"
  order_history :: "'p order list"

text \<open>
  Modelled from the spec: the constructor \<^verbatim>\<open>Account()\<close> (of trading\_classes.py),
  called at line 45. The spec has the account hold the open-order set and an
  append-only history; a new account has no open order and an empty history.
\<close>

definition new_account :: "'p::zero account" where
  [simp]: "new_account = \<lparr>balance = 0, open_orders = [], order_history = []\<rparr>"

text \<open>
  Modelled from the spec: the exchange's \<^verbatim>\<open>update_account(account)\<close>, called at line
  87, ``fills balances in place'' and touches nothing else of the account; \<open>filled\<close>
  is what it fills in.
\<close>

definition fill_balances :: "'p \<Rightarrow> 'p account \<Rightarrow> 'p account" where
  [simp]: "fill_balances filled acc = acc\<lparr>balance := filled\<rparr>"

subsection \<open>The logger, the exchange and the strategy\<close>

text \<open>
  The messages the engine logs, with the values formatted into them. Line 101 words an
  inactive order as executed or canceled.
\<close>

datatype outcome = Executed | Canceled

datatype 'p log_entry =
    Starting
  | OrderGot string outcome "'p option"
  | ShuttingDown
  | NotAuthenticated
  | UnableToExit error
  | ExceptionInHandleTick error
  | ConnectionClosed

text \<open>
  The calls the engine makes on the exchange and on the strategy, recorded in the
  order they are made.
\<close>

datatype call =
    IsOpen | GetInstrument | GetBars | RecentBars | UpdateAccount | GetOrders
  | ExchangeExit | SendOrder | UpdateOrder | CancelOrder
  | BotPrepare | BotReset | BotInit | BotOnTick

datatype symbol = Symbol string

text \<open>
  The exchange and the strategy are outside the engine. What they answer while one
  method of the engine runs is an input: a value returned, or an exception raised
  (\<open>Inl\<close>, or \<open>Some\<close> for a call that returns nothing). \<^verbatim>\<open>is_open\<close> answers
  with a boolean, as the spec has it. During \<^verbatim>\<open>on_tick\<close> the strategy may call the
  engine's order relay.
\<close>

record 'p exchange =
  x_is_open :: bool
  x_get_instrument :: "error + symbol"
  x_get_bars :: "error + 'p bar list"
  x_recent_bars :: "error + 'p bar list"
  x_update_account :: "error + 'p"
  x_get_orders :: "error + 'p order list"
  x_exit :: "error option"

datatype 'p order_op = Send "'p order" | Update "'p order" | Cancel string

record 'p trading_bot =
  bot_prepare :: "error option"
  bot_reset :: "error option"
  bot_init :: "error option"
  bot_on_tick :: "'p order_op list \<times> error option"

subsection \<open>The engine\<close>

text \<open>
  The attributes of \<^verbatim>\<open>LiveTrading\<close>, with the calls made so far and the messages
  logged so far.
\<close>

record 'p engine =
  alive :: bool
  last_tick :: real
  symbolInfo :: "symbol option"
  bars :: "'p bar list"
  account :: "'p account"
  calls :: "call list"
  logged :: "'p log_entry list"

text \<open>Lines 52 and 53: the push callback, given the reading of \<^verbatim>\<open>time.time()\<close>.\<close>

definition on_tick :: "real \<Rightarrow> 'p engine \<Rightarrow> 'p engine" where
  "on_tick now e = e\<lparr>last_tick := now\<rparr>"

text \<open>Lines 64 to 71: the order relay.\<close>

definition send_order :: "'p order \<Rightarrow> 'p engine \<Rightarrow> 'p engine" where
  "send_order order e = e\<lparr>calls := calls e @ [SendOrder]\<rparr>"

definition update_order :: "'p order \<Rightarrow> 'p engine \<Rightarrow> 'p engine" where
  "update_order order e = e\<lparr>calls := calls e @ [UpdateOrder]\<rparr>"

definition cancel_order :: "string \<Rightarrow> 'p engine \<Rightarrow> 'p engine" where
  "cancel_order orderId e = e\<lparr>calls := calls e @ [CancelOrder]\<rparr>"

fun relay :: "'p order_op \<Rightarrow> 'p engine \<Rightarrow> 'p engine" where
  "relay (Send order) e = send_order order e"
| "relay (Update order) e = update_order order e"
| "relay (Cancel orderId) e = cancel_order orderId e"

subsection \<open>update\_account\<close>

text \<open>
  Lines 94 to 103: the loop over the fresh orders. It carries the account and the
  log; \<open>prevOpenIds\<close> is fixed before the loop.
\<close>

fun reconcile ::
  "string list \<Rightarrow> 'p::zero account \<times> 'p log_entry list \<Rightarrow> 'p order list
     \<Rightarrow> 'p account \<times> 'p log_entry list" where
  "reconcile prevOpenIds (acc, lg) [] = (acc, lg)"
| "reconcile prevOpenIds (acc, lg) (ord # orders) =
     (if active ord then
        reconcile prevOpenIds (acc\<lparr>open_orders := open_orders acc @ [ord]\<rparr>, lg) orders
      else if length (order_id ord) > 0 \<and> order_id ord \<in> set prevOpenIds then
        reconcile prevOpenIds
          (acc\<lparr>order_history := order_history acc @ [ord]\<rparr>,
           lg @ [OrderGot (order_id ord)
                   (if executed_amount ord \<noteq> 0 then Executed else Canceled)
                   (executed_price ord)])
          orders
      else reconcile prevOpenIds (acc, lg) orders)"

text \<open>Lines 86 to 103.\<close>

definition update_account ::
  "'p::zero exchange \<Rightarrow> 'p engine \<Rightarrow> 'p engine \<times> error option" where
  "update_account x e =
     (let e = e\<lparr>calls := calls e @ [UpdateAccount]\<rparr> in
      case x_update_account x of
        Inl err \<Rightarrow> (e, Some err)
      | Inr filled \<Rightarrow>
          let e = e\<lparr>account := fill_balances filled (account e),
                     calls := calls e @ [GetOrders]\<rparr> in
          (case x_get_orders x of
             Inl err \<Rightarrow> (e, Some err)
           | Inr orders \<Rightarrow>
               let prevOpenIds = map order_id (open_orders (account e));
                   (acc, lg) = reconcile prevOpenIds
                                 ((account e)\<lparr>open_orders := []\<rparr>, logged e) orders
               in (e\<lparr>account := acc, logged := lg\<rparr>, None)))"

subsection \<open>update\_bars\<close>

text \<open>Lines 105 to 136.\<close>

definition update_bars ::
  "'p::{ord,plus} exchange \<Rightarrow> 'p engine \<Rightarrow> 'p engine \<times> error option" where
  "update_bars x e =
     (if length (bars e) < 10 then
        (let e = e\<lparr>calls := calls e @ [GetBars]\<rparr> in
         case x_get_bars x of
           Inl err \<Rightarrow> (e, Some err)
         | Inr fetched \<Rightarrow> (e\<lparr>bars := fetched\<rparr>, None))
      else
        (let e = e\<lparr>calls := calls e @ [RecentBars]\<rparr> in
         case x_recent_bars x of
           Inl err \<Rightarrow> (e, Some err)
         | Inr new_bars \<Rightarrow>
             let (merged, raised) = merge_incremental (bars e) new_bars
             in (e\<lparr>bars := merged\<rparr>, raised)))"

subsection \<open>Connection, exit and the tick\<close>

text \<open>Lines 138 to 140.\<close>

definition check_connection :: "'p exchange \<Rightarrow> 'p engine \<Rightarrow> 'p engine \<times> bool" where
  "check_connection x e = (e\<lparr>calls := calls e @ [IsOpen]\<rparr>, x_is_open x)"

text \<open>
  Lines 142 to 152. The handlers catch \<^verbatim>\<open>AuthenticationError\<close> and \<^verbatim>\<open>Exception\<close>.
  An exception of the exchange's \<^verbatim>\<open>exit\<close> that is neither leaves the method before
  line 152, with \<^verbatim>\<open>alive\<close> still true and nothing more logged. The result is the
  state and that exception.
\<close>

definition exit :: "'p exchange \<Rightarrow> 'p engine \<Rightarrow> 'p engine \<times> error option" where
  "exit x e =
     (if \<not> alive e then (e, None)
      else
        let e = e\<lparr>logged := logged e @ [ShuttingDown], calls := calls e @ [ExchangeExit]\<rparr>
        in case x_exit x of
             None \<Rightarrow> (e\<lparr>alive := False\<rparr>, None)
           | Some err \<Rightarrow>
               if err = AuthenticationError then
                 (e\<lparr>logged := logged e @ [NotAuthenticated], alive := False\<rparr>, None)
               else if is_exception err then
                 (e\<lparr>logged := logged e @ [UnableToExit err], alive := False\<rparr>, None)
               else (e, Some err))"

text \<open>
  Lines 161 to 163: the handler of \<^verbatim>\<open>handle_tick\<close>. An \<^verbatim>\<open>Exception\<close> is logged and
  raised again; any other exception passes the handler unlogged.
\<close>

definition handle_tick_except :: "error \<Rightarrow> 'p engine \<Rightarrow> 'p engine \<times> error option" where
  "handle_tick_except err e =
     (if is_exception err then (e\<lparr>logged := logged e @ [ExceptionInHandleTick err]\<rparr>, Some err)
      else (e, Some err))"

text \<open>Lines 159 and 160.\<close>

definition clear_did_change :: "'p bar \<Rightarrow> 'p bar" where
  "clear_did_change bar =
     Bar (tstamp bar) (open_price bar) (high bar) (low bar) (close bar) (volume bar)
       (subbars bar) False"

text \<open>
  Lines 154 to 163. The flags are cleared only when the three steps returned.
\<close>

definition handle_tick ::
  "'p::{ord,plus,zero} exchange \<Rightarrow> 'p trading_bot \<Rightarrow> 'p engine \<Rightarrow> 'p engine \<times> error option" where
  "handle_tick x tb e =
     (case update_bars x e of
        (e, Some err) \<Rightarrow> handle_tick_except err e
      | (e, None) \<Rightarrow>
     (case update_account x e of
        (e, Some err) \<Rightarrow> handle_tick_except err e
      | (e, None) \<Rightarrow>
     (let e = fold relay (fst (bot_on_tick tb)) (e\<lparr>calls := calls e @ [BotOnTick]\<rparr>) in
      case snd (bot_on_tick tb) of
        Some err \<Rightarrow> handle_tick_except err e
      | None \<Rightarrow> (e\<lparr>bars := map clear_did_change (bars e)\<rparr>, None))))"

subsection \<open>The constructor\<close>

text \<open>
  Lines 35 to 50, from \<^verbatim>\<open>self.alive = True\<close> on; the logger and the exchange object
  are built before. There is no handler: an exception of a step leaves the constructor
  with the attributes as they stand. The result is the state and that exception.
  An attribute that Python has not assigned yet holds the value it is first assigned.
\<close>

definition init ::
  "'p::{ord,plus,zero} exchange \<Rightarrow> 'p trading_bot \<Rightarrow> 'p engine \<times> error option" where
  "init x tb =
     (let e = \<lparr>alive = True, last_tick = 0, symbolInfo = None, bars = [],
               account = new_account, calls = [IsOpen], logged = []\<rparr> in
      if x_is_open x then
        (let e = e\<lparr>logged := logged e @ [Starting], calls := calls e @ [GetInstrument]\<rparr> in
         case x_get_instrument x of
           Inl err \<Rightarrow> (e, Some err)
         | Inr instrument \<Rightarrow>
        (let e = e\<lparr>symbolInfo := Some instrument, calls := calls e @ [BotPrepare]\<rparr> in
         case bot_prepare tb of
           Some err \<Rightarrow> (e, Some err)
         | None \<Rightarrow>
        (case update_bars x (e\<lparr>bars := []\<rparr>) of
           (e, Some err) \<Rightarrow> (e, Some err)
         | (e, None) \<Rightarrow>
        (case update_account x (e\<lparr>account := new_account\<rparr>) of
           (e, Some err) \<Rightarrow> (e, Some err)
         | (e, None) \<Rightarrow>
        (let e = e\<lparr>calls := calls e @ [BotReset]\<rparr> in
         case bot_reset tb of
           Some err \<Rightarrow> (e, Some err)
         | None \<Rightarrow> (e\<lparr>calls := calls e @ [BotInit]\<rparr>, bot_init tb))))))
      else (e\<lparr>alive := False\<rparr>, None))"

subsection \<open>run\_loop\<close>

text \<open>
  Line 171: the condition under which the loop does work, with \<open>last_exec\<close> the
  local \<^verbatim>\<open>last\<close> and \<open>interval\<close> = \<^verbatim>\<open>settings.LOOP_INTERVAL\<close>. Clock readings are
  real numbers.
\<close>

definition trigger :: "real \<Rightarrow> real \<Rightarrow> real \<Rightarrow> real \<Rightarrow> bool" where
  "trigger interval last_exec tick current =
     (current - last_exec > interval \<or> (last_exec < tick \<and> tick < current - 2))"

text \<open>
  What the world supplies to one pass of the loop body: the latest push that arrived
  through \<^verbatim>\<open>on_tick\<close> before line 171 reads \<^verbatim>\<open>last_tick\<close> (if any arrived since the
  previous pass), the clock readings of lines 168 and 172, and the answers of the
  exchange and the strategy.
\<close>

record 'p iteration =
  it_push :: "real option"
  it_current :: real
  it_now :: real
  it_exchange :: "'p exchange"
  it_bot :: "'p trading_bot"

text \<open>Lines 168 to 177: one pass of the body. It returns \<^verbatim>\<open>last\<close>, the state and an
  exception of \<^verbatim>\<open>exit\<close> or of \<^verbatim>\<open>handle_tick\<close>.\<close>

definition loop_body ::
  "real \<Rightarrow> real \<Rightarrow> 'p::{ord,plus,zero} engine \<Rightarrow> 'p iteration
     \<Rightarrow> real \<times> 'p engine \<times> error option" where
  "loop_body interval last_exec e it =
     (let e = (case it_push it of None \<Rightarrow> e | Some t \<Rightarrow> on_tick t e) in
      if trigger interval last_exec (last_tick e) (it_current it) then
        (let last_exec = it_now it;
             (e, is_open) = check_connection (it_exchange it) e
         in if \<not> is_open then
              (last_exec, exit (it_exchange it) (e\<lparr>logged := logged e @ [ConnectionClosed]\<rparr>))
            else (last_exec, handle_tick (it_exchange it) (it_bot it) e))
      else (last_exec, e, None))"

text \<open>
  Lines 166 to 179. The loop runs while \<^verbatim>\<open>alive\<close> holds and may run forever; the
  list of passes is what the world supplies, and the result says how the loop ended:
  it returned because \<^verbatim>\<open>alive\<close> is false, an exception left it, or it is still
  running when the supplied passes are used up.
\<close>

datatype loop_end = Stopped | Raised error | Running

fun run_loop_from ::
  "real \<Rightarrow> real \<Rightarrow> 'p::{ord,plus,zero} engine \<Rightarrow> 'p iteration list
     \<Rightarrow> 'p engine \<times> loop_end" where
  "run_loop_from interval last_exec e [] = (e, if alive e then Running else Stopped)"
| "run_loop_from interval last_exec e (it # its) =
     (if \<not> alive e then (e, Stopped)
      else
        (case loop_body interval last_exec e it of
           (last_exec, e, Some err) \<Rightarrow> (e, Raised err)
         | (last_exec, e, None) \<Rightarrow> run_loop_from interval last_exec e its))"

definition run_loop ::
  "real \<Rightarrow> 'p::{ord,plus,zero} engine \<Rightarrow> 'p iteration list \<Rightarrow> 'p engine \<times> loop_end" where
  "run_loop interval e its = run_loop_from interval 0 e its"

subsection \<open>The engine from its construction on\<close>

text \<open>
  The value of the expression \<^verbatim>\<open>LiveTrading(settings, trading_bot)\<close>: the engine the
  constructor returns, or the exception that left the constructor. In that case the
  expression yields no object.
\<close>

definition LiveTrading ::
  "'p::{ord,plus,zero} exchange \<Rightarrow> 'p trading_bot \<Rightarrow> error + 'p engine" where
  "LiveTrading x tb = (case init x tb of (e, Some err) \<Rightarrow> Inl err | (e, None) \<Rightarrow> Inr e)"

text \<open>
  \<^verbatim>\<open>run_loop\<close> is a method: it runs on an engine the constructor returned. The life
  of an engine is its construction followed by \<^verbatim>\<open>run_loop\<close>; with no engine
  constructed there is no loop, and the result is the constructor's exception.
\<close>

definition construct_and_run ::
  "'p::{ord,plus,zero} exchange \<Rightarrow> 'p trading_bot \<Rightarrow> real \<Rightarrow> 'p iteration list
     \<Rightarrow> error + 'p engine \<times> loop_end" where
  "construct_and_run x tb interval its =
     (case LiveTrading x tb of
        Inl err \<Rightarrow> Inl err
      | Inr e \<Rightarrow> Inr (run_loop interval e its))"

section \<open>Vocabulary of the properties\<close>

text \<open>Bucket timestamps strictly decreasing from index 0.\<close>

fun newest_first :: "'p bar list \<Rightarrow> bool" where
  "newest_first [] = True"
| "newest_first [b] = True"
| "newest_first (b # c # bs) = (tstamp c < tstamp b \<and> newest_first (c # bs))"

text \<open>
  The message of lines 98 to 102 for an order, and the test of line 97 under which an
  order of the fresh snapshot is appended to the history.
\<close>

definition order_got :: "'p::zero order \<Rightarrow> 'p log_entry" where
  "order_got ord =
     OrderGot (order_id ord) (if executed_amount ord \<noteq> 0 then Executed else Canceled)
       (executed_price ord)"

definition recorded :: "string list \<Rightarrow> 'p order \<Rightarrow> bool" where
  "recorded prevOpenIds ord =
     (\<not> active ord \<and> order_id ord \<noteq> [] \<and> order_id ord \<in> set prevOpenIds)"

subsection \<open>Example data\<close>

text \<open>
  A subbar at time \<open>t\<close> trading at one price, a bucket with given subbars, ten stored
  buckets of width 100 with three subbars each, and an incremental fetch that brings
  a later view of the head bucket and one new bucket.
\<close>

definition ex_sub :: "int \<Rightarrow> int \<Rightarrow> int bar" where
  "ex_sub t p = Bar t p p p p 1 [] False"

definition ex_bar :: "int \<Rightarrow> int bar list \<Rightarrow> int bar" where
  "ex_bar t subs = Bar t 0 0 0 0 0 subs False"

definition ex_stored :: "int bar list" where
  "ex_stored =
     map (\<lambda>t. ex_bar t [ex_sub (t + 20) 5, ex_sub (t + 10) 4, ex_sub t 3])
       [1000, 900, 800, 700, 600, 500, 400, 300, 200, 100]"

definition ex_batch :: "int bar list" where
  "ex_batch =
     [ex_bar 1100 [ex_sub 1100 7],
      ex_bar 1000 [ex_sub 1040 6, ex_sub 1030 6, ex_sub 1020 5, ex_sub 1010 4]]"

definition ex_order :: "string \<Rightarrow> bool \<Rightarrow> int \<Rightarrow> int order" where
  "ex_order i a amount =
     \<lparr>order_id = i, active = a, executed_amount = amount,
      executed_price = (if amount = 0 then None else Some 70)\<rparr>"

definition ex_orders :: "int order list" where
  "ex_orders =
     [ex_order ''a1'' True 0, ex_order ''b2'' False 3, ex_order ''c3'' False 0,
      ex_order [] False 0, ex_order ''z9'' False 1]"

definition ex_exchange :: "int exchange" where
  "ex_exchange =
     \<lparr>x_is_open = True, x_get_instrument = Inr (Symbol ''XBTUSD''),
      x_get_bars = Inr ex_stored, x_recent_bars = Inr ex_batch,
      x_update_account = Inr 100, x_get_orders = Inr ex_orders, x_exit = None\<rparr>"

definition ex_bot :: "int trading_bot" where
  "ex_bot =
     \<lparr>bot_prepare = None, bot_reset = None, bot_init = None, bot_on_tick = ([], None)\<rparr>"

definition ex_engine :: "int engine" where
  "ex_engine =
     \<lparr>alive = True, last_tick = 0, symbolInfo = Some (Symbol ''XBTUSD''),
      bars = ex_stored,
      account =
        \<lparr>balance = 90,
         open_orders =
           [ex_order ''a1'' True 0, ex_order ''b2'' True 0, ex_order ''c3'' True 0,
            ex_order ''d4'' True 0],
         order_history = []\<rparr>,
      calls = [], logged = []\<rparr>"

text \<open>
  What one call of \<^verbatim>\<open>update_account\<close> appended to the order history and to the log,
  and the order messages of a log that name a given id.
\<close>

definition appended_history :: "'p engine \<Rightarrow> 'p engine \<Rightarrow> 'p order list" where
  "appended_history e e' =
     drop (length (order_history (account e))) (order_history (account e'))"

definition appended_log :: "'p engine \<Rightarrow> 'p engine \<Rightarrow> 'p log_entry list" where
  "appended_log e e' = drop (length (logged e)) (logged e')"

fun names_order :: "string \<Rightarrow> 'p log_entry \<Rightarrow> bool" where
  "names_order i (OrderGot j outcome price) = (j = i)"
| "names_order i entry = False"

definition prev_open_ids :: "'p engine \<Rightarrow> string list" where
  "prev_open_ids e = map order_id (open_orders (account e))"



text \<open>The value of \<^verbatim>\<open>self.last_tick\<close> that line 171 reads in a pass.\<close>

definition last_tick_seen :: "'p engine \<Rightarrow> 'p iteration \<Rightarrow> real" where
  "last_tick_seen e it = (case it_push it of None \<Rightarrow> last_tick e | Some t \<Rightarrow> t)"

text \<open>The exception, if any, with which the exchange or the strategy answers a call
  of the initialization sequence.\<close>

fun answer :: "'p exchange \<Rightarrow> 'p trading_bot \<Rightarrow> call \<Rightarrow> error option" where
  "answer x tb GetInstrument = (case x_get_instrument x of Inl err \<Rightarrow> Some err | Inr v \<Rightarrow> None)"
| "answer x tb GetBars = (case x_get_bars x of Inl err \<Rightarrow> Some err | Inr v \<Rightarrow> None)"
| "answer x tb UpdateAccount = (case x_update_account x of Inl err \<Rightarrow> Some err | Inr v \<Rightarrow> None)"
| "answer x tb GetOrders = (case x_get_orders x of Inl err \<Rightarrow> Some err | Inr v \<Rightarrow> None)"
| "answer x tb BotPrepare = bot_prepare tb"
| "answer x tb BotReset = bot_reset tb"
| "answer x tb BotInit = bot_init tb"
| "answer x tb c = None"

text \<open>
  More example data: an engine holding three bars, an exchange whose connection is
  closed, one whose instrument fetch fails, and a pass of the loop at a clock reading.
\<close>

definition ex_cold_engine :: "int engine" where
  "ex_cold_engine = ex_engine\<lparr>bars := take 3 ex_stored\<rparr>"

definition ex_closed :: "int exchange" where
  "ex_closed = ex_exchange\<lparr>x_is_open := False\<rparr>"

definition ex_failing :: "int exchange" where
  "ex_failing = ex_exchange\<lparr>x_get_instrument := Inl (OtherError ''timeout'')\<rparr>"

definition ex_iteration :: "int exchange \<Rightarrow> real \<Rightarrow> int iteration" where
  "ex_iteration x now =
     \<lparr>it_push = None, it_current = now, it_now = now, it_exchange = x, it_bot = ex_bot\<rparr>"

subsection \<open>Auxiliary functions of the merge proofs\<close>

text \<open>
  The subbars the loop of lines 129 to 133 adds, given the timestamp of the newest
  subbar merged so far; the subbars of a bar after its oldest one, oldest first; the
  bar built at line 121; and the merged bar of lines 120 to 133 in closed form.
\<close>

fun picked :: "int \<Rightarrow> 'p bar list \<Rightarrow> 'p bar list" where
  "picked t [] = []"
| "picked t (sub # subs) =
     (if tstamp sub > t then sub # picked (tstamp sub) subs else picked t subs)"

definition older_rest :: "'p bar \<Rightarrow> 'p bar list" where
  "older_rest bar = rev (butlast (subbars bar))"

definition seed_bar :: "int \<Rightarrow> 'p bar \<Rightarrow> 'p bar" where
  "seed_bar t first =
     new_bar t (open_price first) (high first) (low first) (close first) (volume first)
       [first]"

definition kept_older :: "'p bar \<Rightarrow> 'p bar \<Rightarrow> 'p bar list" where
  "kept_older head b =
     takeWhile (\<lambda>s. tstamp s < tstamp (last (subbars b))) (older_rest head)"

definition taken_newer :: "'p bar \<Rightarrow> 'p bar \<Rightarrow> 'p bar list" where
  "taken_newer head b =
     picked (tstamp (last (last (subbars head) # kept_older head b))) (rev (subbars b))"

definition rebuilt :: "'p::{ord,plus} bar \<Rightarrow> 'p bar \<Rightarrow> 'p bar" where
  "rebuilt head b =
     foldl add_subbar (seed_bar (tstamp b) (last (subbars head)))
       (kept_older head b @ taken_newer head b)"

text \<open>
  Two bars of one bucket that the merge with an incoming bar whose oldest subbar is at
  \<open>t\<close> cannot tell apart: the same oldest subbar and the same subbars older than \<open>t\<close>.
\<close>

definition same_view :: "int \<Rightarrow> 'p bar \<Rightarrow> 'p bar \<Rightarrow> bool" where
  "same_view t X Y =
     (tstamp X = tstamp Y \<and> subbars X \<noteq> [] \<and> subbars Y \<noteq> [] \<and>
      last (subbars X) = last (subbars Y) \<and>
      takeWhile (\<lambda>s. tstamp s < t) (older_rest X) =
        takeWhile (\<lambda>s. tstamp s < t) (older_rest Y))"

text \<open>
  The subbars of the stored head that the merge keeps, in stored order: those older
  than the incoming bar's oldest subbar, and the head's oldest subbar in any case.
\<close>

definition kept_subbars :: "'p bar \<Rightarrow> 'p bar \<Rightarrow> 'p bar list" where
  "kept_subbars head b =
     filter (\<lambda>s. tstamp s < tstamp (last (subbars b))) (butlast (subbars head)) @
     [last (subbars head)]"

text \<open>
  Example data of the merge: a stored head whose view of bucket 1000 starts at 1010,
  an incoming bar that starts at 1000, and one that continues the head's view.
\<close>

definition ex_head :: "int bar" where
  "ex_head = ex_bar 1000 [ex_sub 1020 5, ex_sub 1010 4]"

definition ex_earlier :: "int bar" where
  "ex_earlier = ex_bar 1000 [ex_sub 1020 5, ex_sub 1010 4, ex_sub 1000 3]"

definition ex_later :: "int bar" where
  "ex_later = ex_bar 1000 [ex_sub 1040 6, ex_sub 1030 6, ex_sub 1020 5]"

text \<open>
  An engine whose head bucket is the partial view \<open>ex_head\<close>, and the exchange
  answering the incremental fetch with a given batch.
\<close>

definition ex_partial_engine :: "int engine" where
  "ex_partial_engine = ex_engine\<lparr>bars := ex_head # tl ex_stored\<rparr>"

definition ex_answer :: "int bar list \<Rightarrow> int exchange" where
  "ex_answer batch = ex_exchange\<lparr>x_recent_bars := Inr batch\<rparr>"

text \<open>
  The exception, if any, that leaves the engine's \<^verbatim>\<open>exit\<close>: one that the exchange's
  \<^verbatim>\<open>exit\<close> raises and that is not an \<^verbatim>\<open>Exception\<close>.
\<close>

definition exit_raises :: "'p exchange \<Rightarrow> error option" where
  "exit_raises x =
     (case x_exit x of
        None \<Rightarrow> None
      | Some err \<Rightarrow> if is_exception err then None else Some err)"

text \<open>The calls of the initialization sequence after the connectivity check, lines
  39 to 48, in the order they are made.\<close>

definition init_sequence :: "call list" where
  "init_sequence =
     [GetInstrument, BotPrepare, GetBars, UpdateAccount, GetOrders, BotReset, BotInit]"

text \<open>
  Example data: a closed connection whose \<^verbatim>\<open>exit\<close> is interrupted, an exchange whose
  order fetch fails, and one whose snapshot lists an order twice.
\<close>

definition ex_interrupted :: "int exchange" where
  "ex_interrupted = ex_closed\<lparr>x_exit := Some KeyboardInterrupt\<rparr>"

definition ex_no_orders :: "int exchange" where
  "ex_no_orders = ex_exchange\<lparr>x_get_orders := Inl (OtherError ''timeout'')\<rparr>"

definition ex_twice :: "int exchange" where
  "ex_twice =
     ex_exchange\<lparr>x_get_orders := Inr [ex_order ''b2'' False 3, ex_order ''b2'' False 3]\<rparr>"

section \<open>Bucket timestamps\<close>

lemma tstamp_add_subbar [simp]: "tstamp (add_subbar bar sub) = tstamp bar"
  by (simp add: add_subbar_def)

lemma tstamp_add_older_subbars [simp]: "tstamp (add_older_subbars t nb subs) = tstamp nb"
  by (induction subs arbitrary: nb) auto

lemma tstamp_add_newer_subbars: "add_newer_subbars nb subs = Inr m \<Longrightarrow> tstamp m = tstamp nb"
  by (induction subs arbitrary: nb) (auto split: list.splits if_splits)

lemma tstamp_merge_head: "merge_head h b = Inr m \<Longrightarrow> tstamp m = tstamp b"
  by (auto simp: merge_head_def Let_def split: if_splits dest!: tstamp_add_newer_subbars)

lemma newest_first_Cons:
  "newest_first (b # bs) = ((bs = [] \<or> tstamp (hd bs) < tstamp b) \<and> newest_first bs)"
  by (cases bs) auto

lemma update_bars_step_newest_first:
  "newest_first stored \<Longrightarrow> update_bars_step stored b = Inr stored' \<Longrightarrow> newest_first stored'"
  by (cases stored)
     (auto simp: newest_first_Cons split: if_splits sum.splits dest: tstamp_merge_head)

lemma update_bars_loop_newest_first:
  "newest_first stored \<Longrightarrow> newest_first (fst (update_bars_loop stored bs))"
  by (induction bs arbitrary: stored)
     (auto split: sum.splits dest: update_bars_step_newest_first)

lemma bars_update_bars_incremental:
  "10 \<le> length (bars e) \<Longrightarrow>
     bars (fst (update_bars x e)) =
       (case x_recent_bars x of
          Inl err \<Rightarrow> bars e
        | Inr new_bars \<Rightarrow> fst (merge_incremental (bars e) new_bars))"
  by (simp add: update_bars_def Let_def split: sum.splits prod.splits)

lemma newest_first_ex_stored: "newest_first ex_stored"
  by (simp add: ex_stored_def ex_bar_def)

lemma length_ex_stored: "length ex_stored = 10"
  by (simp add: ex_stored_def)

text \<open>
  C3. If the stored bars have strictly decreasing bucket timestamps from index 0 and
  ten or more bars are held, so that \<^verbatim>\<open>update_bars\<close> takes the incremental path,
  the stored bars have strictly decreasing bucket timestamps after the call, whatever
  the exchange answers: any batch, in any order, and also when the call ends by an
  exception.
\<close>

theorem bucket_monotonicity:
  assumes "newest_first (bars e)" and "10 \<le> length (bars e)"
  shows "newest_first (bars (fst (update_bars x e)))"
proof (cases "x_recent_bars x")
  case (Inl err)
  with assms show ?thesis by (simp add: bars_update_bars_incremental)
next
  case (Inr new_bars)
  with assms show ?thesis
    by (simp add: bars_update_bars_incremental merge_incremental_def
          update_bars_loop_newest_first)
qed

theorem bucket_monotonicity_witness:
  "newest_first (bars ex_engine) \<and> 10 \<le> length (bars ex_engine) \<and>
   newest_first (bars (fst (update_bars ex_exchange ex_engine))) \<and>
   map tstamp (bars (fst (update_bars ex_exchange ex_engine))) =
     [1100, 1000, 900, 800, 700, 600, 500, 400, 300, 200, 100]"
proof -
  have 1: "newest_first (bars ex_engine)"
    by (simp add: ex_engine_def newest_first_ex_stored)
  have 2: "10 \<le> length (bars ex_engine)"
    by (simp add: ex_engine_def length_ex_stored)
  have 3: "map tstamp (bars (fst (update_bars ex_exchange ex_engine))) =
     [1100, 1000, 900, 800, 700, 600, 500, 400, 300, 200, 100]"
    by (simp add: update_bars_def ex_engine_def ex_exchange_def ex_stored_def ex_batch_def
          ex_bar_def ex_sub_def merge_incremental_def merge_head_def add_subbar_def Let_def)
  from bucket_monotonicity [OF 1 2, of ex_exchange] 1 2 3 show ?thesis by simp
qed

section \<open>Reconciliation\<close>

lemma reconcile_eq:
  "reconcile prev (acc, lg) orders =
     (acc\<lparr>open_orders := open_orders acc @ filter active orders,
          order_history := order_history acc @ filter (recorded prev) orders\<rparr>,
      lg @ map order_got (filter (recorded prev) orders))"
  by (induction orders arbitrary: acc lg) (auto simp: recorded_def order_got_def)

lemma update_account_completes:
  assumes "x_update_account x = Inr filled" and "x_get_orders x = Inr orders"
  shows "update_account x e =
           (e\<lparr>calls := calls e @ [UpdateAccount, GetOrders],
               account := \<lparr>balance = filled,
                            open_orders = filter active orders,
                            order_history = order_history (account e) @
                              filter (recorded (prev_open_ids e)) orders\<rparr>,
               logged := logged e @
                 map order_got (filter (recorded (prev_open_ids e)) orders)\<rparr>,
            None)"
  using assms by (simp add: update_account_def Let_def reconcile_eq prev_open_ids_def)

lemma appended_history_completes:
  assumes "x_update_account x = Inr filled" and "x_get_orders x = Inr orders"
  shows "appended_history e (fst (update_account x e)) =
           filter (recorded (prev_open_ids e)) orders"
  by (simp add: update_account_completes [OF assms] appended_history_def)

lemma appended_log_completes:
  assumes "x_update_account x = Inr filled" and "x_get_orders x = Inr orders"
  shows "appended_log e (fst (update_account x e)) =
           map order_got (filter (recorded (prev_open_ids e)) orders)"
  by (simp add: update_account_completes [OF assms] appended_log_def)

lemma order_history_completes:
  assumes "x_update_account x = Inr filled" and "x_get_orders x = Inr orders"
  shows "order_history (account (fst (update_account x e))) =
           order_history (account e) @ appended_history e (fst (update_account x e))"
  by (simp add: update_account_completes [OF assms] appended_history_def)

lemma open_orders_completes:
  assumes "x_update_account x = Inr filled" and "x_get_orders x = Inr orders"
  shows "open_orders (account (fst (update_account x e))) = filter active orders"
  by (simp add: update_account_completes [OF assms])

lemma names_order_order_got [simp]: "names_order i (order_got ord) = (order_id ord = i)"
  by (simp add: order_got_def)

lemma filter_names_order:
  "filter (names_order i) (map order_got ords) =
     map order_got (filter (\<lambda>ord. order_id ord = i) ords)"
  by (induction ords) auto

lemma filter_id_distinct:
  "distinct (map order_id ords) \<Longrightarrow> ord \<in> set ords \<Longrightarrow>
     filter (\<lambda>x. order_id x = order_id ord) ords = [ord]"
proof (induction ords)
  case Nil
  then show ?case by simp
next
  case (Cons a ords)
  show ?case
  proof (cases "a = ord")
    case True
    with Cons.prems have "\<forall>x\<in>set ords. order_id x \<noteq> order_id ord"
      by (auto simp: image_iff)
    then have "filter (\<lambda>x. order_id x = order_id ord) ords = []"
      by (simp add: filter_empty_conv)
    with True show ?thesis by simp
  next
    case False
    with Cons.prems have "ord \<in> set ords" and "order_id a \<noteq> order_id ord"
      by (auto simp: image_iff)
    with Cons show ?thesis by simp
  qed
qed

lemma count_list_filter: "P a \<Longrightarrow> count_list (filter P xs) a = count_list xs a"
  by (induction xs) auto

lemma filter_id_absent:
  "i \<notin> set (map order_id ords) \<Longrightarrow> filter (\<lambda>x. order_id x = i) ords = []"
  by (auto simp: filter_empty_conv)

lemma ex_account_answers:
  "x_update_account ex_exchange = Inr 100" "x_get_orders ex_exchange = Inr ex_orders"
  by (simp_all add: ex_exchange_def)

lemma ex_prev_open_ids: "prev_open_ids ex_engine = [''a1'', ''b2'', ''c3'', ''d4'']"
  by (simp add: prev_open_ids_def ex_engine_def ex_order_def)

lemma ex_orders_distinct: "distinct (map order_id ex_orders)"
  by (simp add: ex_orders_def ex_order_def)

text \<open>
  C5, as the code has it. In a reconciliation pass (the exchange answers both calls of
  \<^verbatim>\<open>update_account\<close>), the history is extended only at its end, and every order of the
  fresh snapshot that is inactive, has a non-empty id and whose id was in the previous
  open set is appended once for each time the snapshot lists it: lines 94 to 103 do
  not look for duplicates. Each appended order gets one log message, which says
  executed when its \<^verbatim>\<open>executed_amount\<close> is not zero and canceled when it is zero. When
  the snapshot lists each order id once, the order is appended exactly once, as the
  one appended order with its id, and the log gets exactly one message for that id.
\<close>

theorem reconciliation_completeness:
  assumes "x_update_account x = Inr filled" and "x_get_orders x = Inr orders"
    and "ord \<in> set orders" and "\<not> active ord" and "order_id ord \<noteq> []"
    and "order_id ord \<in> set (prev_open_ids e)"
  shows "order_history (account (fst (update_account x e))) =
           order_history (account e) @ appended_history e (fst (update_account x e)) \<and>
         count_list (appended_history e (fst (update_account x e))) ord =
           count_list orders ord \<and>
         appended_log e (fst (update_account x e)) =
           map (\<lambda>a. OrderGot (order_id a)
                  (if executed_amount a \<noteq> 0 then Executed else Canceled) (executed_price a))
             (appended_history e (fst (update_account x e))) \<and>
         (distinct (map order_id orders) \<longrightarrow>
            filter (\<lambda>a. order_id a = order_id ord)
              (appended_history e (fst (update_account x e))) = [ord] \<and>
            count_list (appended_history e (fst (update_account x e))) ord = 1 \<and>
            filter (names_order (order_id ord)) (appended_log e (fst (update_account x e))) =
              [OrderGot (order_id ord)
                 (if executed_amount ord \<noteq> 0 then Executed else Canceled)
                 (executed_price ord)])"
proof -
  let ?rec = "filter (recorded (prev_open_ids e)) orders"
  have rec: "recorded (prev_open_ids e) ord"
    using assms(4-6) by (simp add: recorded_def)
  with assms(3) have in_rec: "ord \<in> set ?rec" by simp
  have cnt: "count_list ?rec ord = count_list orders ord"
    using rec by (rule count_list_filter)
  have msgs: "map order_got ?rec =
      map (\<lambda>a. OrderGot (order_id a)
             (if executed_amount a \<noteq> 0 then Executed else Canceled) (executed_price a)) ?rec"
    by (simp add: order_got_def)
  have once: "filter (\<lambda>a. order_id a = order_id ord) ?rec = [ord] \<and>
      count_list ?rec ord = 1 \<and>
      filter (names_order (order_id ord)) (map order_got ?rec) =
        [OrderGot (order_id ord)
           (if executed_amount ord \<noteq> 0 then Executed else Canceled) (executed_price ord)]"
    if d: "distinct (map order_id orders)"
  proof -
    from d have "distinct (map order_id ?rec)" by (simp add: distinct_map_filter)
    from filter_id_distinct [OF this in_rec]
    have one: "filter (\<lambda>a. order_id a = order_id ord) ?rec = [ord]" .
    have c1: "count_list ?rec ord = 1"
      using count_list_filter [of "\<lambda>a. order_id a = order_id ord" ord ?rec]
      by (simp only: one) simp
    have "filter (names_order (order_id ord)) (map order_got ?rec) = [order_got ord]"
      by (simp only: filter_names_order one list.map)
    with one c1 show ?thesis by (simp add: order_got_def)
  qed
  show ?thesis
    using cnt once
    by (simp only: appended_history_completes [OF assms(1,2)]
          appended_log_completes [OF assms(1,2)] order_history_completes [OF assms(1,2)] msgs)
       simp
qed

lemma ex_b2:
  "ex_order ''b2'' False 3 \<in> set ex_orders" "\<not> active (ex_order ''b2'' False 3)"
  "order_id (ex_order ''b2'' False 3) \<noteq> []"
  "order_id (ex_order ''b2'' False 3) \<in> set (prev_open_ids ex_engine)"
  by (simp_all add: ex_orders_def ex_prev_open_ids) (simp_all add: ex_order_def)

lemma ex_twice_answers:
  "x_update_account ex_twice = Inr 100"
  "x_get_orders ex_twice = Inr [ex_order ''b2'' False 3, ex_order ''b2'' False 3]"
  by (simp_all add: ex_twice_def ex_exchange_def)

theorem reconciliation_completeness_witness:
  "x_update_account ex_exchange = Inr 100 \<and> x_get_orders ex_exchange = Inr ex_orders \<and>
   distinct (map order_id ex_orders) \<and>
   ex_order ''b2'' False 3 \<in> set ex_orders \<and> \<not> active (ex_order ''b2'' False 3) \<and>
   order_id (ex_order ''b2'' False 3) \<noteq> [] \<and>
   order_id (ex_order ''b2'' False 3) \<in> set (prev_open_ids ex_engine) \<and>
   order_history (account (fst (update_account ex_exchange ex_engine))) =
     [ex_order ''b2'' False 3, ex_order ''c3'' False 0] \<and>
   count_list (appended_history ex_engine (fst (update_account ex_exchange ex_engine)))
     (ex_order ''b2'' False 3) = 1 \<and>
   filter (names_order ''b2'')
     (appended_log ex_engine (fst (update_account ex_exchange ex_engine))) =
     [OrderGot ''b2'' Executed (Some 70)]"
proof -
  have h: "order_history (account (fst (update_account ex_exchange ex_engine))) =
     [ex_order ''b2'' False 3, ex_order ''c3'' False 0]"
    by (simp add: order_history_completes [OF ex_account_answers]
          appended_history_completes [OF ex_account_answers] ex_prev_open_ids)
       (simp add: ex_engine_def ex_orders_def ex_order_def recorded_def)
  from reconciliation_completeness [OF ex_account_answers ex_b2]
  have "count_list (appended_history ex_engine (fst (update_account ex_exchange ex_engine)))
      (ex_order ''b2'' False 3) = 1 \<and>
    filter (names_order (order_id (ex_order ''b2'' False 3)))
      (appended_log ex_engine (fst (update_account ex_exchange ex_engine))) =
      [OrderGot (order_id (ex_order ''b2'' False 3))
         (if executed_amount (ex_order ''b2'' False 3) \<noteq> 0 then Executed else Canceled)
         (executed_price (ex_order ''b2'' False 3))]"
    using ex_orders_distinct by blast
  then show ?thesis
    using ex_account_answers ex_orders_distinct ex_b2 h
    by (simp add: ex_order_def)
qed

text \<open>
  The claim C5 as it is written fails where the snapshot lists an order twice: the
  order is inactive, has a non-empty id that was in the previous open set, and is
  appended to the history twice.
\<close>

theorem reconciliation_completeness_counterexample:
  "x_update_account ex_twice = Inr 100 \<and>
   x_get_orders ex_twice = Inr [ex_order ''b2'' False 3, ex_order ''b2'' False 3] \<and>
   \<not> active (ex_order ''b2'' False 3) \<and>
   order_id (ex_order ''b2'' False 3) \<noteq> [] \<and>
   order_id (ex_order ''b2'' False 3) \<in> set (prev_open_ids ex_engine) \<and>
   appended_history ex_engine (fst (update_account ex_twice ex_engine)) =
     [ex_order ''b2'' False 3, ex_order ''b2'' False 3] \<and>
   count_list (appended_history ex_engine (fst (update_account ex_twice ex_engine)))
     (ex_order ''b2'' False 3) = 2 \<and>
   appended_log ex_engine (fst (update_account ex_twice ex_engine)) =
     [OrderGot ''b2'' Executed (Some 70), OrderGot ''b2'' Executed (Some 70)]"
proof -
  have rec: "recorded (prev_open_ids ex_engine) (ex_order ''b2'' False 3)"
    using ex_b2(2-4) by (simp add: recorded_def)
  have app: "appended_history ex_engine (fst (update_account ex_twice ex_engine)) =
     [ex_order ''b2'' False 3, ex_order ''b2'' False 3]"
    using rec by (simp add: appended_history_completes [OF ex_twice_answers])
  have lg: "appended_log ex_engine (fst (update_account ex_twice ex_engine)) =
     [OrderGot ''b2'' Executed (Some 70), OrderGot ''b2'' Executed (Some 70)]"
    using rec by (simp add: appended_log_completes [OF ex_twice_answers])
       (simp add: order_got_def ex_order_def)
  show ?thesis
    using ex_twice_answers ex_b2(2-4) lg by (simp add: app)
qed

lemma recorded_ids:
  "a \<in> set (filter (recorded prev) ords) \<Longrightarrow> order_id a \<noteq> [] \<and> order_id a \<in> set prev"
  by (simp add: recorded_def)

text \<open>
  C6. In a reconciliation pass, an order with an empty id, or with an id that was not
  in the previous open set, is not appended to the history (no appended order has its
  id) and gets no line in the log; when it is inactive it is not in the new open set
  either, so it is dropped.
\<close>

theorem reconciliation_safety:
  assumes "x_update_account x = Inr filled" and "x_get_orders x = Inr orders"
    and "order_id ord = [] \<or> order_id ord \<notin> set (prev_open_ids e)"
  shows "order_id ord \<notin> set (map order_id (appended_history e (fst (update_account x e)))) \<and>
         ord \<notin> set (appended_history e (fst (update_account x e))) \<and>
         filter (names_order (order_id ord)) (appended_log e (fst (update_account x e))) = [] \<and>
         (\<not> active ord \<longrightarrow> ord \<notin> set (open_orders (account (fst (update_account x e)))))"
proof -
  let ?rec = "filter (recorded (prev_open_ids e)) orders"
  have no_id: "order_id ord \<notin> set (map order_id ?rec)"
  proof
    assume "order_id ord \<in> set (map order_id ?rec)"
    then obtain a where "a \<in> set ?rec" and "order_id a = order_id ord" by auto
    with recorded_ids [of a "prev_open_ids e" orders] assms(3) show False by auto
  qed
  then have no_ord: "ord \<notin> set ?rec" by (auto simp: image_iff)
  have no_msg: "filter (names_order (order_id ord)) (map order_got ?rec) = []"
    using filter_id_absent [OF no_id] by (simp add: filter_names_order)
  show ?thesis
    using no_id no_ord no_msg
    by (simp add: appended_history_completes [OF assms(1,2)]
          appended_log_completes [OF assms(1,2)] open_orders_completes [OF assms(1,2)])
qed

theorem reconciliation_safety_witness:
  "x_update_account ex_exchange = Inr 100 \<and> x_get_orders ex_exchange = Inr ex_orders \<and>
   ex_order ''z9'' False 1 \<in> set ex_orders \<and>
   order_id (ex_order ''z9'' False 1) \<notin> set (prev_open_ids ex_engine) \<and>
   ex_order ''z9'' False 1 \<notin>
     set (appended_history ex_engine (fst (update_account ex_exchange ex_engine))) \<and>
   filter (names_order ''z9'')
     (appended_log ex_engine (fst (update_account ex_exchange ex_engine))) = [] \<and>
   ex_order ''z9'' False 1 \<notin>
     set (open_orders (account (fst (update_account ex_exchange ex_engine))))"
proof -
  have 1: "ex_order ''z9'' False 1 \<in> set ex_orders"
    by (simp add: ex_orders_def)
  have 2: "order_id (ex_order ''z9'' False 1) \<notin> set (prev_open_ids ex_engine)"
    by (simp add: ex_prev_open_ids) (simp add: ex_order_def)
  then have 3: "order_id (ex_order ''z9'' False 1) = [] \<or>
      order_id (ex_order ''z9'' False 1) \<notin> set (prev_open_ids ex_engine)" ..
  have 4: "\<not> active (ex_order ''z9'' False 1)" "order_id (ex_order ''z9'' False 1) = ''z9''"
    by (simp_all add: ex_order_def)
  from reconciliation_safety [OF ex_account_answers 3]
  show ?thesis
    using ex_account_answers 1 2 4 by simp
qed

text \<open>
  C10. In a reconciliation pass, an id that was in the previous open set and that no
  order of the fresh snapshot carries is not in the new open set, no order with that
  id is appended to the history, and the log gets no message for it.
\<close>

theorem vanished_order_leaves_no_trace:
  assumes "x_update_account x = Inr filled" and "x_get_orders x = Inr orders"
    and "i \<in> set (prev_open_ids e)" and "i \<notin> set (map order_id orders)"
  shows "i \<notin> set (prev_open_ids (fst (update_account x e))) \<and>
         i \<notin> set (map order_id (appended_history e (fst (update_account x e)))) \<and>
         filter (names_order i) (appended_log e (fst (update_account x e))) = []"
proof -
  let ?rec = "filter (recorded (prev_open_ids e)) orders"
  have 1: "i \<notin> set (map order_id (filter active orders))"
    using assms(4) by auto
  have 2: "i \<notin> set (map order_id ?rec)"
    using assms(4) by auto
  have 3: "filter (names_order i) (map order_got ?rec) = []"
    using filter_id_absent [OF 2] by (simp add: filter_names_order)
  show ?thesis
    using 1 2 3
    by (simp add: appended_history_completes [OF assms(1,2)] prev_open_ids_def
          appended_log_completes [OF assms(1,2)] open_orders_completes [OF assms(1,2)])
qed

theorem vanished_order_leaves_no_trace_witness:
  "x_update_account ex_exchange = Inr 100 \<and> x_get_orders ex_exchange = Inr ex_orders \<and>
   ''d4'' \<in> set (prev_open_ids ex_engine) \<and> ''d4'' \<notin> set (map order_id ex_orders) \<and>
   ''d4'' \<notin> set (prev_open_ids (fst (update_account ex_exchange ex_engine))) \<and>
   ''d4'' \<notin> set (map order_id
     (appended_history ex_engine (fst (update_account ex_exchange ex_engine)))) \<and>
   filter (names_order ''d4'')
     (appended_log ex_engine (fst (update_account ex_exchange ex_engine))) = []"
proof -
  have 1: "''d4'' \<in> set (prev_open_ids ex_engine)"
    by (simp add: ex_prev_open_ids)
  have 2: "''d4'' \<notin> set (map order_id ex_orders)"
    by (simp add: ex_orders_def ex_order_def)
  from vanished_order_leaves_no_trace [OF ex_account_answers 1 2]
  show ?thesis
    using ex_account_answers 1 2 by simp
qed

section \<open>Full fetch or incremental merge\<close>

text \<open>
  C4. While fewer than ten bars are held, \<^verbatim>\<open>update_bars\<close> makes one call,
  \<^verbatim>\<open>get_bars\<close>, and the bars it returns replace the stored sequence: nothing is
  merged and \<^verbatim>\<open>recent_bars\<close> is not called. With ten or more bars held it makes
  one call, \<^verbatim>\<open>recent_bars\<close>, and the stored sequence becomes the incremental merge
  of the returned batch.
\<close>

theorem update_bars_full_or_incremental:
  "(length (bars e) < 10 \<longrightarrow>
      calls (fst (update_bars x e)) = calls e @ [GetBars] \<and>
      (\<forall>fetched. x_get_bars x = Inr fetched \<longrightarrow>
         update_bars x e = (e\<lparr>calls := calls e @ [GetBars], bars := fetched\<rparr>, None))) \<and>
   (10 \<le> length (bars e) \<longrightarrow>
      calls (fst (update_bars x e)) = calls e @ [RecentBars] \<and>
      (\<forall>new_bars. x_recent_bars x = Inr new_bars \<longrightarrow>
         update_bars x e =
           (e\<lparr>calls := calls e @ [RecentBars],
               bars := fst (merge_incremental (bars e) new_bars)\<rparr>,
            snd (merge_incremental (bars e) new_bars))))"
  by (auto simp: update_bars_def Let_def split: sum.splits prod.splits)

theorem update_bars_full_or_incremental_witness:
  "length (bars ex_cold_engine) = 3 \<and>
   calls (fst (update_bars ex_exchange ex_cold_engine)) = [GetBars] \<and>
   bars (fst (update_bars ex_exchange ex_cold_engine)) = ex_stored \<and>
   length (bars ex_engine) = 10 \<and>
   calls (fst (update_bars ex_exchange ex_engine)) = [RecentBars] \<and>
   bars (fst (update_bars ex_exchange ex_engine)) = fst (merge_incremental ex_stored ex_batch)"
proof -
  have 1: "length (bars ex_cold_engine) = 3" "calls ex_cold_engine = []"
    by (simp_all add: ex_cold_engine_def ex_engine_def length_ex_stored)
  have 2: "length (bars ex_engine) = 10" "calls ex_engine = []" "bars ex_engine = ex_stored"
    by (simp_all add: ex_engine_def length_ex_stored)
  have 3: "x_get_bars ex_exchange = Inr ex_stored" "x_recent_bars ex_exchange = Inr ex_batch"
    by (simp_all add: ex_exchange_def)
  from update_bars_full_or_incremental [of ex_cold_engine ex_exchange]
       update_bars_full_or_incremental [of ex_engine ex_exchange]
  show ?thesis
    using 1 2 3 by simp
qed

section \<open>The loop\<close>

lemma run_loop_from_not_alive:
  "\<not> alive e \<Longrightarrow> run_loop_from interval last_exec e its = (e, Stopped)"
  by (cases its) simp_all

lemma exit_alive:
  assumes "alive e"
  shows "snd (exit x e) = exit_raises x"
    and "alive (fst (exit x e)) = (exit_raises x \<noteq> None)"
    and "calls (fst (exit x e)) = calls e @ [ExchangeExit]"
  using assms by (simp_all add: exit_def exit_raises_def Let_def split: option.splits)



lemma loop_body_closed:
  assumes "trigger interval last_exec (last_tick_seen e it) (it_current it)"
    and "\<not> x_is_open (it_exchange it)"
  shows "loop_body interval last_exec e it =
           (it_now it,
            exit (it_exchange it)
              ((case it_push it of None \<Rightarrow> e | Some t \<Rightarrow> on_tick t e)
                 \<lparr>calls := calls e @ [IsOpen], logged := logged e @ [ConnectionClosed]\<rparr>))"
  using assms
  by (auto simp: loop_body_def last_tick_seen_def check_connection_def on_tick_def
      split: option.splits)


lemma run_loop_from_closed:
  assumes "alive e"
    and "trigger interval last_exec (last_tick_seen e it) (it_current it)"
    and "\<not> x_is_open (it_exchange it)"
  shows "calls (fst (run_loop_from interval last_exec e (it # its))) =
           calls e @ [IsOpen, ExchangeExit]"
    and "snd (run_loop_from interval last_exec e (it # its)) =
           (case exit_raises (it_exchange it) of None \<Rightarrow> Stopped | Some err \<Rightarrow> Raised err)"
    and "alive (fst (run_loop_from interval last_exec e (it # its))) =
           (exit_raises (it_exchange it) \<noteq> None)"
proof -
  define e1 where "e1 = (case it_push it of None \<Rightarrow> e | Some t \<Rightarrow> on_tick t e)
      \<lparr>calls := calls e @ [IsOpen], logged := logged e @ [ConnectionClosed]\<rparr>"
  have a1: "alive e1" and c1: "calls e1 = calls e @ [IsOpen]"
    using assms(1) by (simp_all add: e1_def on_tick_def split: option.splits)
  obtain e2 r where ex: "exit (it_exchange it) e1 = (e2, r)"
    by (cases "exit (it_exchange it) e1")
  from exit_alive [OF a1, of "it_exchange it"] ex c1
  have r: "r = exit_raises (it_exchange it)"
    and a2: "alive e2 = (exit_raises (it_exchange it) \<noteq> None)"
    and c2: "calls e2 = calls e @ [IsOpen, ExchangeExit]"
    by simp_all
  have body: "loop_body interval last_exec e it = (it_now it, e2, r)"
    using loop_body_closed [OF assms(2,3)] ex by (simp add: e1_def)
  have run: "run_loop_from interval last_exec e (it # its) =
      (case r of Some err \<Rightarrow> (e2, Raised err) | None \<Rightarrow> (e2, Stopped))"
  proof (cases r)
    case None
    with a2 r have "\<not> alive e2" by simp
    from run_loop_from_not_alive [OF this] assms(1) body None show ?thesis by simp
  next
    case (Some err)
    with assms(1) body show ?thesis by simp
  qed
  show "calls (fst (run_loop_from interval last_exec e (it # its))) =
      calls e @ [IsOpen, ExchangeExit]"
    using run c2 by (simp split: option.splits)
  show "snd (run_loop_from interval last_exec e (it # its)) =
      (case exit_raises (it_exchange it) of None \<Rightarrow> Stopped | Some err \<Rightarrow> Raised err)"
    using run r by (simp split: option.splits)
  show "alive (fst (run_loop_from interval last_exec e (it # its))) =
      (exit_raises (it_exchange it) \<noteq> None)"
    using run a2 by (simp split: option.splits)
qed

text \<open>
  C9, as the code has it. If, in a pass of the running loop, the work is triggered and
  the connectivity check returns closed, the engine makes the check and calls the
  exchange's \<^verbatim>\<open>exit\<close>, and these are the last calls the loop makes, whatever passes
  the world would still supply. Unless the exchange's \<^verbatim>\<open>exit\<close> raises an exception
  that is not an \<^verbatim>\<open>Exception\<close>, \<^verbatim>\<open>alive\<close> becomes false and the loop returns. If it
  raises one, that exception leaves \<^verbatim>\<open>run_loop\<close> and \<^verbatim>\<open>alive\<close> is still true.
\<close>

theorem closed_connection_stops_engine:
  assumes "alive e"
    and "trigger interval last_exec (last_tick_seen e it) (it_current it)"
    and "\<not> x_is_open (it_exchange it)"
  shows "calls (fst (run_loop_from interval last_exec e (it # its))) =
           calls e @ [IsOpen, ExchangeExit] \<and>
         (exit_raises (it_exchange it) = None \<longrightarrow>
            snd (run_loop_from interval last_exec e (it # its)) = Stopped \<and>
            \<not> alive (fst (run_loop_from interval last_exec e (it # its)))) \<and>
         (\<forall>err. exit_raises (it_exchange it) = Some err \<longrightarrow>
            snd (run_loop_from interval last_exec e (it # its)) = Raised err \<and>
            alive (fst (run_loop_from interval last_exec e (it # its))))"
  using run_loop_from_closed [OF assms, of its]
  by (auto simp del: run_loop_from.simps)

lemma ex_closed_pass:
  "alive ex_engine"
  "trigger 5 0 (last_tick_seen ex_engine (ex_iteration ex_closed 6))
     (it_current (ex_iteration ex_closed 6))"
  "\<not> x_is_open (it_exchange (ex_iteration ex_closed 6))"
  by (simp_all add: ex_engine_def ex_iteration_def ex_closed_def trigger_def last_tick_seen_def)

lemma ex_interrupted_pass:
  "trigger 5 0 (last_tick_seen ex_engine (ex_iteration ex_interrupted 6))
     (it_current (ex_iteration ex_interrupted 6))"
  "\<not> x_is_open (it_exchange (ex_iteration ex_interrupted 6))"
  "exit_raises (it_exchange (ex_iteration ex_interrupted 6)) = Some KeyboardInterrupt"
  by (simp_all add: ex_engine_def ex_iteration_def ex_interrupted_def ex_closed_def
        trigger_def last_tick_seen_def exit_raises_def)

theorem closed_connection_stops_engine_witness:
  "alive ex_engine \<and>
   trigger 5 0 (last_tick_seen ex_engine (ex_iteration ex_closed 6))
     (it_current (ex_iteration ex_closed 6)) \<and>
   \<not> x_is_open (it_exchange (ex_iteration ex_closed 6)) \<and>
   exit_raises (it_exchange (ex_iteration ex_closed 6)) = None \<and>
   snd (run_loop_from 5 0 ex_engine
          [ex_iteration ex_closed 6, ex_iteration ex_exchange 12, ex_iteration ex_exchange 18])
     = Stopped \<and>
   \<not> alive (fst (run_loop_from 5 0 ex_engine
          [ex_iteration ex_closed 6, ex_iteration ex_exchange 12, ex_iteration ex_exchange 18])) \<and>
   calls (fst (run_loop_from 5 0 ex_engine
          [ex_iteration ex_closed 6, ex_iteration ex_exchange 12, ex_iteration ex_exchange 18]))
     = [IsOpen, ExchangeExit]"
proof -
  have 1: "calls ex_engine = []" by (simp add: ex_engine_def)
  have 2: "exit_raises (it_exchange (ex_iteration ex_closed 6)) = None"
    by (simp add: exit_raises_def ex_iteration_def ex_closed_def ex_exchange_def)
  from closed_connection_stops_engine [OF ex_closed_pass,
         of "[ex_iteration ex_exchange 12, ex_iteration ex_exchange 18]"]
  show ?thesis
    using ex_closed_pass 1 2 by (simp del: run_loop_from.simps)
qed

text \<open>
  The claim C9 as it is written fails where the exchange's \<^verbatim>\<open>exit\<close> is interrupted:
  the check returns closed, \<^verbatim>\<open>KeyboardInterrupt\<close> passes the handlers of lines 148 and
  150, and it leaves \<^verbatim>\<open>run_loop\<close> with \<^verbatim>\<open>alive\<close> true.
\<close>

theorem closed_connection_stops_engine_counterexample:
  "alive ex_engine \<and>
   trigger 5 0 (last_tick_seen ex_engine (ex_iteration ex_interrupted 6))
     (it_current (ex_iteration ex_interrupted 6)) \<and>
   \<not> x_is_open (it_exchange (ex_iteration ex_interrupted 6)) \<and>
   x_exit (it_exchange (ex_iteration ex_interrupted 6)) = Some KeyboardInterrupt \<and>
   alive (fst (run_loop_from 5 0 ex_engine
          [ex_iteration ex_interrupted 6, ex_iteration ex_exchange 12])) \<and>
   snd (run_loop_from 5 0 ex_engine
          [ex_iteration ex_interrupted 6, ex_iteration ex_exchange 12]) =
     Raised KeyboardInterrupt \<and>
   calls (fst (run_loop_from 5 0 ex_engine
          [ex_iteration ex_interrupted 6, ex_iteration ex_exchange 12])) =
     [IsOpen, ExchangeExit]"
proof -
  have 1: "calls ex_engine = []" by (simp add: ex_engine_def)
  have 2: "x_exit (it_exchange (ex_iteration ex_interrupted 6)) = Some KeyboardInterrupt"
    by (simp add: ex_iteration_def ex_interrupted_def)
  from run_loop_from_closed [OF ex_closed_pass(1) ex_interrupted_pass(1,2),
         of "[ex_iteration ex_exchange 12]"]
  show ?thesis
    using ex_closed_pass(1) ex_interrupted_pass 1 2 by (simp del: run_loop_from.simps)
qed





lemma calls_handle_tick_except [simp]: "calls (fst (handle_tick_except err e)) = calls e"
  by (simp add: handle_tick_except_def)







section \<open>The constructor\<close>

lemma init_closed:
  "\<not> x_is_open x \<Longrightarrow>
     \<not> alive (fst (init x tb)) \<and> snd (init x tb) = None \<and> calls (fst (init x tb)) = [IsOpen]"
  by (simp add: init_def Let_def)

lemma init_sequence_cases:
  assumes "init_sequence = before @ c # after"
  shows "(before = [] \<and> c = GetInstrument) \<or>
         (before = [GetInstrument] \<and> c = BotPrepare) \<or>
         (before = [GetInstrument, BotPrepare] \<and> c = GetBars) \<or>
         (before = [GetInstrument, BotPrepare, GetBars] \<and> c = UpdateAccount) \<or>
         (before = [GetInstrument, BotPrepare, GetBars, UpdateAccount] \<and> c = GetOrders) \<or>
         (before = [GetInstrument, BotPrepare, GetBars, UpdateAccount, GetOrders] \<and>
            c = BotReset) \<or>
         (before = [GetInstrument, BotPrepare, GetBars, UpdateAccount, GetOrders, BotReset] \<and>
            c = BotInit)"
  using assms by (auto simp: init_sequence_def Cons_eq_append_conv)

lemma update_bars_cold:
  "bars e = [] \<Longrightarrow>
     update_bars x e =
       (case x_get_bars x of
          Inl err \<Rightarrow> (e\<lparr>calls := calls e @ [GetBars]\<rparr>, Some err)
        | Inr fetched \<Rightarrow> (e\<lparr>calls := calls e @ [GetBars], bars := fetched\<rparr>, None))"
  by (simp add: update_bars_def Let_def split: sum.splits)

lemma update_account_steps:
  "\<exists>e'. alive e' = alive e \<and>
     (case x_update_account x of
        Inl err \<Rightarrow> update_account x e = (e', Some err) \<and> calls e' = calls e @ [UpdateAccount]
      | Inr filled \<Rightarrow>
          calls e' = calls e @ [UpdateAccount, GetOrders] \<and>
          (case x_get_orders x of
             Inl err \<Rightarrow> update_account x e = (e', Some err)
           | Inr orders \<Rightarrow> update_account x e = (e', None)))"
  by (cases "x_update_account x"; cases "x_get_orders x")
     (auto simp: update_account_def Let_def split: prod.splits)

lemma init_step_raises:
  assumes "x_is_open x" and "init_sequence = before @ c # after"
    and "\<forall>d\<in>set before. answer x tb d = None" and "answer x tb c = Some err"
  shows "snd (init x tb) = Some err \<and> alive (fst (init x tb)) \<and>
         calls (fst (init x tb)) = IsOpen # before @ [c]"
proof -
  define e0 :: "'a engine" where
    "e0 = \<lparr>alive = True, last_tick = 0, symbolInfo = None, bars = [], account = new_account,
           calls = [IsOpen, GetInstrument], logged = [Starting]\<rparr>"
  show ?thesis
  proof (cases "x_get_instrument x")
    case (Inl err1)
    with assms init_sequence_cases [OF assms(2)] show ?thesis
      by (auto simp: init_def Let_def)
  next
    case instr: (Inr instrument)
    define e1 where "e1 = e0\<lparr>symbolInfo := Some instrument, calls := calls e0 @ [BotPrepare]\<rparr>"
    show ?thesis
    proof (cases "bot_prepare tb")
      case (Some err1)
      with assms instr init_sequence_cases [OF assms(2)] show ?thesis
        by (auto simp: init_def Let_def)
    next
      case prep: None
      show ?thesis
      proof (cases "x_get_bars x")
        case (Inl err1)
        with assms instr prep init_sequence_cases [OF assms(2)] show ?thesis
          by (auto simp: init_def Let_def update_bars_cold)
      next
        case fetch: (Inr fetched)
        define e2 where "e2 = e1\<lparr>calls := calls e1 @ [GetBars], bars := fetched,
            account := new_account\<rparr>"
        have a2: "alive e2" and c2: "calls e2 = [IsOpen, GetInstrument, BotPrepare, GetBars]"
          by (simp_all add: e2_def e1_def e0_def)
        from update_account_steps [of e2 x] obtain e3 where a3: "alive e3 = alive e2"
          and ua: "case x_update_account x of
              Inl err \<Rightarrow> update_account x e2 = (e3, Some err) \<and>
                calls e3 = calls e2 @ [UpdateAccount]
            | Inr filled \<Rightarrow>
                calls e3 = calls e2 @ [UpdateAccount, GetOrders] \<and>
                (case x_get_orders x of
                   Inl err \<Rightarrow> update_account x e2 = (e3, Some err)
                 | Inr orders \<Rightarrow> update_account x e2 = (e3, None))"
          by blast
        have unfold: "init x tb =
            (case update_account x e2 of
               (e, Some err) \<Rightarrow> (e, Some err)
             | (e, None) \<Rightarrow>
                 (case bot_reset tb of
                    Some err \<Rightarrow> (e\<lparr>calls := calls e @ [BotReset]\<rparr>, Some err)
                  | None \<Rightarrow> (e\<lparr>calls := calls e @ [BotReset, BotInit]\<rparr>, bot_init tb)))"
          using assms(1) instr prep fetch
          by (simp add: init_def Let_def update_bars_cold e2_def e1_def e0_def
              split: prod.splits option.splits)
        show ?thesis
        proof (cases "x_update_account x")
          case (Inl err1)
          with ua have "update_account x e2 = (e3, Some err1)"
            and "calls e3 = calls e2 @ [UpdateAccount]" by simp_all
          with unfold a2 a3 c2 Inl assms instr prep fetch init_sequence_cases [OF assms(2)]
          show ?thesis by auto
        next
          case filled: (Inr filled)
          with ua have c3: "calls e3 = calls e2 @ [UpdateAccount, GetOrders]"
            and ua': "case x_get_orders x of
                Inl err \<Rightarrow> update_account x e2 = (e3, Some err)
              | Inr orders \<Rightarrow> update_account x e2 = (e3, None)"
            by simp_all
          show ?thesis
          proof (cases "x_get_orders x")
            case (Inl err1)
            with ua' have "update_account x e2 = (e3, Some err1)" by simp
            with unfold a2 a3 c2 c3 Inl filled assms instr prep fetch
              init_sequence_cases [OF assms(2)]
            show ?thesis by auto
          next
            case orders: (Inr orders)
            with ua' have "update_account x e2 = (e3, None)" by simp
            with unfold a2 a3 c2 c3 orders filled assms instr prep fetch
              init_sequence_cases [OF assms(2)]
            show ?thesis by (auto split: option.splits)
          qed
        qed
      qed
    qed
  qed
qed

lemma LiveTrading_raises: "snd (init x tb) = Some err \<Longrightarrow> LiveTrading x tb = Inl err"
  by (cases "init x tb") (simp add: LiveTrading_def)

text \<open>
  C7, as the code has it. The constructor has no exception handler. If the
  connectivity check reports open and a call of the initialization sequence (the
  instrument fetch, the strategy's \<^verbatim>\<open>prepare\<close>, the cold bar fetch, the two calls of
  the initial account fetch, the strategy's \<^verbatim>\<open>reset\<close> and \<^verbatim>\<open>init\<close>) raises an
  exception after the calls before it returned, the exception leaves the constructor
  at that call, which is the last one made, with \<^verbatim>\<open>alive\<close> still true, not false.
  The constructor returns no engine, so \<^verbatim>\<open>run_loop\<close> is never entered: the engine
  never reaches Running.
\<close>

theorem init_failure:
  assumes "x_is_open x" and "init_sequence = before @ c # after"
    and "\<forall>d\<in>set before. answer x tb d = None" and "answer x tb c = Some err"
  shows "snd (init x tb) = Some err \<and> alive (fst (init x tb)) \<and>
         calls (fst (init x tb)) = IsOpen # before @ [c] \<and>
         LiveTrading x tb = Inl err \<and>
         construct_and_run x tb interval its = Inl err"
  using init_step_raises [OF assms] LiveTrading_raises [of x tb err]
  by (simp add: construct_and_run_def)

lemma init_ex_failing:
  "init ex_failing ex_bot =
     (\<lparr>alive = True, last_tick = 0, symbolInfo = None, bars = [],
       account = \<lparr>balance = 0, open_orders = [], order_history = []\<rparr>,
       calls = [IsOpen, GetInstrument], logged = [Starting]\<rparr>,
      Some (OtherError ''timeout''))"
  by (simp add: init_def ex_failing_def ex_exchange_def Let_def)

theorem init_failure_witness:
  "x_is_open ex_no_orders \<and>
   init_sequence =
     [GetInstrument, BotPrepare, GetBars, UpdateAccount] @ GetOrders # [BotReset, BotInit] \<and>
   answer ex_no_orders ex_bot GetInstrument = None \<and>
   answer ex_no_orders ex_bot BotPrepare = None \<and>
   answer ex_no_orders ex_bot GetBars = None \<and>
   answer ex_no_orders ex_bot UpdateAccount = None \<and>
   answer ex_no_orders ex_bot GetOrders = Some (OtherError ''timeout'') \<and>
   snd (init ex_no_orders ex_bot) = Some (OtherError ''timeout'') \<and>
   alive (fst (init ex_no_orders ex_bot)) \<and>
   calls (fst (init ex_no_orders ex_bot)) =
     [IsOpen, GetInstrument, BotPrepare, GetBars, UpdateAccount, GetOrders] \<and>
   LiveTrading ex_no_orders ex_bot = Inl (OtherError ''timeout'') \<and>
   construct_and_run ex_no_orders ex_bot 5 [ex_iteration ex_exchange 6] =
     Inl (OtherError ''timeout'')"
proof -
  have 1: "x_is_open ex_no_orders"
    by (simp add: ex_no_orders_def ex_exchange_def)
  have 2: "init_sequence =
     [GetInstrument, BotPrepare, GetBars, UpdateAccount] @ GetOrders # [BotReset, BotInit]"
    by (simp add: init_sequence_def)
  have 3: "answer ex_no_orders ex_bot GetInstrument = None"
    "answer ex_no_orders ex_bot BotPrepare = None"
    "answer ex_no_orders ex_bot GetBars = None"
    "answer ex_no_orders ex_bot UpdateAccount = None"
    by (simp_all add: ex_no_orders_def ex_exchange_def ex_bot_def)
  then have 4: "\<forall>d\<in>set [GetInstrument, BotPrepare, GetBars, UpdateAccount].
      answer ex_no_orders ex_bot d = None"
    by simp
  have 5: "answer ex_no_orders ex_bot GetOrders = Some (OtherError ''timeout'')"
    by (simp add: ex_no_orders_def)
  from init_failure [OF 1 2 4 5, of 5 "[ex_iteration ex_exchange 6]"]
  show ?thesis
    using 1 2 3 5 by simp
qed

text \<open>
  The claim C7 as it is written fails where the instrument fetch raises: the
  exception leaves the constructor and \<^verbatim>\<open>alive\<close> is true, not false.
\<close>

theorem init_failure_counterexample:
  "x_is_open ex_failing \<and> x_get_instrument ex_failing = Inl (OtherError ''timeout'') \<and>
   snd (init ex_failing ex_bot) = Some (OtherError ''timeout'') \<and>
   alive (fst (init ex_failing ex_bot)) \<and>
   calls (fst (init ex_failing ex_bot)) = [IsOpen, GetInstrument]"
  by (simp add: init_ex_failing) (simp add: ex_failing_def ex_exchange_def)

section \<open>The merge in closed form\<close>

lemma subbars_add_subbar [simp]: "subbars (add_subbar bar sub) = sub # subbars bar"
  by (simp add: add_subbar_def)

lemma subbars_foldl_add_subbar [simp]:
  "subbars (foldl add_subbar bar subs) = rev subs @ subbars bar"
  by (induction subs arbitrary: bar) auto

lemma tstamp_foldl_add_subbar [simp]: "tstamp (foldl add_subbar bar subs) = tstamp bar"
  by (induction subs arbitrary: bar) auto

lemma add_older_subbars_eq:
  "add_older_subbars t bar subs = foldl add_subbar bar (takeWhile (\<lambda>s. tstamp s < t) subs)"
  by (induction subs arbitrary: bar) auto

lemma add_newer_subbars_eq:
  "subbars bar \<noteq> [] \<Longrightarrow>
     add_newer_subbars bar subs =
       Inr (foldl add_subbar bar (picked (tstamp (hd (subbars bar))) subs))"
proof (induction subs arbitrary: bar)
  case Nil
  show ?case by simp
next
  case (Cons sub subs)
  from Cons.prems obtain newest rest where sb: "subbars bar = newest # rest"
    by (cases "subbars bar") auto
  show ?case
  proof (cases "tstamp sub > tstamp newest")
    case True
    with sb Cons.IH [of "add_subbar bar sub"] show ?thesis by simp
  next
    case False
    with sb Cons.IH [OF Cons.prems] show ?thesis by simp
  qed
qed

lemma hd_rev_append_single: "hd (rev xs @ [a]) = last (a # xs)"
  by (cases xs rule: rev_cases) auto

lemma merge_head_cases:
  "merge_head head b =
     (if subbars b = [] \<or> subbars head = [] then Inl IndexError
      else if tstamp (last (subbars b)) = tstamp (last (subbars head)) then Inr b
      else Inr (rebuilt head b))"
proof -
  have "add_newer_subbars
          (foldl add_subbar (seed_bar (tstamp b) (last (subbars head))) (kept_older head b))
          (rev (subbars b)) = Inr (rebuilt head b)"
    by (subst add_newer_subbars_eq)
       (simp_all add: rebuilt_def taken_newer_def seed_bar_def hd_rev_append_single)
  then show ?thesis
    by (simp add: merge_head_def Let_def add_older_subbars_eq kept_older_def older_rest_def
          seed_bar_def)
qed

lemma subbars_rebuilt:
  "subbars (rebuilt head b) =
     rev (taken_newer head b) @ rev (kept_older head b) @ [last (subbars head)]"
  by (simp add: rebuilt_def seed_bar_def)

lemma tstamp_rebuilt [simp]: "tstamp (rebuilt head b) = tstamp b"
  by (simp add: rebuilt_def seed_bar_def)

lemma older_rest_rebuilt:
  "older_rest (rebuilt head b) = kept_older head b @ taken_newer head b"
  by (simp add: older_rest_def subbars_rebuilt butlast_append)

lemma last_subbars_rebuilt [simp]: "last (subbars (rebuilt head b)) = last (subbars head)"
  by (simp add: subbars_rebuilt)

section \<open>Merging the same batch again\<close>

lemma picked_newer: "s \<in> set (picked t subs) \<Longrightarrow> t < tstamp s"
  by (induction subs arbitrary: t) (auto split: if_splits intro: less_trans)

lemma hd_picked:
  assumes "picked t (sub # subs) \<noteq> []"
  shows "tstamp sub \<le> tstamp (hd (picked t (sub # subs)))"
proof (cases "t < tstamp sub")
  case True
  then show ?thesis by simp
next
  case False
  with assms have "hd (picked t subs) \<in> set (picked t subs)" by simp
  from picked_newer [OF this] False show ?thesis by simp
qed

lemma rev_subbars: "xs \<noteq> [] \<Longrightarrow> rev xs = last xs # rev (butlast xs)"
  by (cases xs rule: rev_cases) auto

lemma hd_taken_newer:
  assumes "subbars b \<noteq> []" and "taken_newer head b \<noteq> []"
  shows "tstamp (last (subbars b)) \<le> tstamp (hd (taken_newer head b))"
  using assms hd_picked [of _ "last (subbars b)" "rev (butlast (subbars b))"]
  by (simp add: taken_newer_def rev_subbars)

lemma takeWhile_append_stop:
  "ys = [] \<or> \<not> P (hd ys) \<Longrightarrow> takeWhile P (xs @ ys) = takeWhile P xs"
  by (induction xs) (auto simp: takeWhile_eq_Nil_iff)

lemma takeWhile_narrow:
  "(\<And>x. P x \<Longrightarrow> Q x) \<Longrightarrow> takeWhile P (takeWhile Q xs) = takeWhile P xs"
  by (induction xs) auto

lemma takeWhile_older_rest_rebuilt:
  assumes "subbars b \<noteq> []" and "t \<le> tstamp (last (subbars b))"
  shows "takeWhile (\<lambda>s. tstamp s < t) (older_rest (rebuilt head b)) =
         takeWhile (\<lambda>s. tstamp s < t) (older_rest head)"
proof -
  have stop: "taken_newer head b = [] \<or> \<not> tstamp (hd (taken_newer head b)) < t"
    using hd_taken_newer [OF assms(1), of head] assms(2) by auto
  have "takeWhile (\<lambda>s. tstamp s < t) (older_rest (rebuilt head b)) =
        takeWhile (\<lambda>s. tstamp s < t) (kept_older head b)"
    using takeWhile_append_stop [of "taken_newer head b" "\<lambda>s. tstamp s < t" "kept_older head b"] stop
    by (simp only: older_rest_rebuilt)
  also have "\<dots> = takeWhile (\<lambda>s. tstamp s < t) (older_rest head)"
    unfolding kept_older_def using assms(2) by (intro takeWhile_narrow) simp
  finally show ?thesis .
qed

lemma same_view_refl: "subbars X \<noteq> [] \<Longrightarrow> same_view t X X"
  by (simp add: same_view_def)

lemma same_view_rebuilt:
  assumes "subbars c \<noteq> []" and "subbars h \<noteq> []" and "tstamp c = tstamp h"
  shows "same_view (tstamp (last (subbars c))) (rebuilt h c) h"
  using assms takeWhile_older_rest_rebuilt [OF assms(1) order_refl, of h]
  by (simp add: same_view_def subbars_rebuilt)

lemma rebuilt_same_view:
  assumes "same_view (tstamp (last (subbars c))) X Y"
  shows "rebuilt X c = rebuilt Y c"
proof -
  from assms have "kept_older X c = kept_older Y c" and "last (subbars X) = last (subbars Y)"
    by (simp_all add: same_view_def kept_older_def)
  then show ?thesis by (simp add: rebuilt_def taken_newer_def)
qed

lemma merge_head_same_view:
  "same_view (tstamp (last (subbars c))) X Y \<Longrightarrow> merge_head X c = merge_head Y c"
  using rebuilt_same_view [of c X Y] by (simp add: merge_head_cases) (simp add: same_view_def)

lemma merge_head_keeps_view:
  assumes "same_view t X Y" and "subbars d \<noteq> []"
  shows "\<exists>X' Y'. merge_head X d = Inr X' \<and> merge_head Y d = Inr Y' \<and> same_view t X' Y'"
proof (cases "tstamp (last (subbars d)) = tstamp (last (subbars X))")
  case True
  with assms show ?thesis
    by (auto simp: merge_head_cases same_view_def)
next
  case False
  from assms(1) have ne: "subbars X \<noteq> []" "subbars Y \<noteq> []"
    and lst: "last (subbars X) = last (subbars Y)"
    and view: "takeWhile (\<lambda>s. tstamp s < t) (older_rest X) =
               takeWhile (\<lambda>s. tstamp s < t) (older_rest Y)"
    by (simp_all add: same_view_def)
  have "same_view t (rebuilt X d) (rebuilt Y d)"
  proof (cases "t \<le> tstamp (last (subbars d))")
    case True
    from takeWhile_older_rest_rebuilt [OF assms(2) True, of X]
         takeWhile_older_rest_rebuilt [OF assms(2) True, of Y] view lst
    show ?thesis by (simp add: same_view_def subbars_rebuilt)
  next
    case far: False
    have "kept_older X d =
        takeWhile (\<lambda>s. tstamp s < tstamp (last (subbars d)))
          (takeWhile (\<lambda>s. tstamp s < t) (older_rest X))"
      unfolding kept_older_def using far by (intro takeWhile_narrow [symmetric]) simp
    moreover have "kept_older Y d =
        takeWhile (\<lambda>s. tstamp s < tstamp (last (subbars d)))
          (takeWhile (\<lambda>s. tstamp s < t) (older_rest Y))"
      unfolding kept_older_def using far by (intro takeWhile_narrow [symmetric]) simp
    ultimately have "kept_older X d = kept_older Y d" using view by simp
    with lst have "rebuilt X d = rebuilt Y d" by (simp add: rebuilt_def taken_newer_def)
    then show ?thesis by (simp add: same_view_refl subbars_rebuilt)
  qed
  with False ne lst assms(2) show ?thesis
    by (simp add: merge_head_cases)
qed

lemma merge_head_keeps_oldest:
  assumes "subbars X \<noteq> []" and "subbars d \<noteq> []"
  shows "\<exists>X'. merge_head X d = Inr X' \<and> tstamp X' = tstamp d \<and> subbars X' \<noteq> [] \<and>
           tstamp (last (subbars X')) = tstamp (last (subbars X))"
  using assms by (simp add: merge_head_cases subbars_rebuilt)

lemma update_bars_loop_append:
  "update_bars_loop stored (xs @ ys) =
     (case update_bars_loop stored xs of
        (stored', Some e) \<Rightarrow> (stored', Some e)
      | (stored', None) \<Rightarrow> update_bars_loop stored' ys)"
  by (induction xs arbitrary: stored) (auto split: sum.splits)

lemma update_bars_loop_snoc:
  "update_bars_loop stored (xs @ [c]) =
     (case update_bars_loop stored xs of
        (stored', Some e) \<Rightarrow> (stored', Some e)
      | (stored', None) \<Rightarrow>
          (case update_bars_step stored' c of
             Inl e \<Rightarrow> (stored', Some e)
           | Inr stored'' \<Rightarrow> (stored'', None)))"
  by (simp add: update_bars_loop_append split: prod.splits option.splits sum.splits)

text \<open>A batch that fits a bucket: no bar newer than \<open>t\<close>, and the bars at \<open>t\<close>
  carry subbars.\<close>

lemma loop_same_bucket:
  assumes "\<forall>x\<in>set cs. tstamp x \<le> tstamp X \<and> (tstamp x = tstamp X \<longrightarrow> subbars x \<noteq> [])"
    and "same_view t X Y"
  shows "\<exists>X' Y'. update_bars_loop (X # older) cs = (X' # older, None) \<and>
           update_bars_loop (Y # older) cs = (Y' # older, None) \<and> same_view t X' Y' \<and>
           tstamp X' = tstamp X \<and>
           tstamp (last (subbars X')) = tstamp (last (subbars X))"
  using assms
proof (induction cs arbitrary: X Y)
  case Nil
  then show ?case by simp
next
  case (Cons c cs)
  from Cons.prems(2) have ts: "tstamp Y = tstamp X" and ne: "subbars X \<noteq> []"
    by (simp_all add: same_view_def)
  show ?case
  proof (cases "tstamp c < tstamp X")
    case True
    with Cons.IH [of X Y] Cons.prems ts show ?thesis by simp
  next
    case False
    with Cons.prems(1) have eq: "tstamp c = tstamp X" and sc: "subbars c \<noteq> []"
      by auto
    from merge_head_keeps_view [OF Cons.prems(2) sc]
    obtain X' Y' where m: "merge_head X c = Inr X'" "merge_head Y c = Inr Y'"
      and v: "same_view t X' Y'" by blast
    from merge_head_keeps_oldest [OF ne sc] m(1)
    have k: "tstamp X' = tstamp X" "tstamp (last (subbars X')) = tstamp (last (subbars X))"
      using eq by simp_all
    from Cons.prems(1) k(1)
    have "\<forall>x\<in>set cs. tstamp x \<le> tstamp X' \<and> (tstamp x = tstamp X' \<longrightarrow> subbars x \<noteq> [])"
      by simp
    from Cons.IH [OF this v] m eq ts k show ?thesis by simp
  qed
qed

lemma loop_all_older:
  "\<forall>x\<in>set cs. tstamp x < tstamp X \<Longrightarrow>
     update_bars_loop (X # older) cs = (X # older, None)"
  by (induction cs) auto

lemma loop_bounds:
  assumes "update_bars_loop stored cs = (h # older, None)" and "x \<in> set cs"
  shows "tstamp x \<le> tstamp h \<and> (tstamp x = tstamp h \<longrightarrow> subbars h \<noteq> [] \<longrightarrow> subbars x \<noteq> [])"
  using assms
proof (induction cs arbitrary: h older x rule: rev_induct)
  case Nil
  then show ?case by simp
next
  case (snoc c cs)
  from snoc.prems(1) obtain stored' where pre: "update_bars_loop stored cs = (stored', None)"
    and step: "update_bars_step stored' c = Inr (h # older)"
    by (auto simp: update_bars_loop_snoc split: prod.splits option.splits sum.splits)
  from step obtain h' older' where st: "stored' = h' # older'"
    by (cases stored') auto
  note IH = snoc.IH [OF pre [unfolded st]]
  consider (skip) "tstamp c < tstamp h'" | (same) "tstamp c = tstamp h'"
    | (new) "tstamp h' < tstamp c"
    by linarith
  then show ?case
  proof cases
    case skip
    with step st have "h = h'" by simp
    with skip snoc.prems(2) IH [of x] show ?thesis by auto
  next
    case same
    with step st obtain m where m: "merge_head h' c = Inr m" and hm: "h = m"
      by (auto split: sum.splits)
    from m have ne: "subbars c \<noteq> []" "subbars h' \<noteq> []"
      by (auto simp: merge_head_cases split: if_splits)
    from tstamp_merge_head [OF m] hm same have "tstamp h = tstamp h'" by simp
    with ne same snoc.prems(2) IH [of x] show ?thesis by auto
  next
    case new
    with step st have "h = c" by simp
    with new snoc.prems(2) IH [of x] show ?thesis by auto
  qed
qed

lemma merge_head_self: "fst (update_bars_loop (c # older) [c]) = c # older"
  by (simp add: merge_head_cases split: sum.splits)

lemma loop_again_returned:
  "update_bars_loop stored cs = (stored1, None) \<Longrightarrow>
     fst (update_bars_loop stored1 cs) = stored1"
proof (induction cs arbitrary: stored1 rule: rev_induct)
  case Nil
  then show ?case by simp
next
  case (snoc c cs)
  from snoc.prems obtain stored' where pre: "update_bars_loop stored cs = (stored', None)"
    and step: "update_bars_step stored' c = Inr stored1"
    by (auto simp: update_bars_loop_snoc split: prod.splits option.splits sum.splits)
  from step obtain h older where st: "stored' = h # older"
    by (cases stored') auto
  from snoc.IH [OF pre] have again: "fst (update_bars_loop (h # older) cs) = h # older"
    by (simp add: st)
  note bounds = loop_bounds [OF pre [unfolded st]]
  consider (skip) "tstamp c < tstamp h" | (same) "tstamp c = tstamp h"
    | (new) "tstamp h < tstamp c"
    by linarith
  then show ?case
  proof cases
    case skip
    with step st have "stored1 = h # older" by simp
    with again skip show ?thesis
      by (cases "update_bars_loop (h # older) cs")
         (auto simp: update_bars_loop_snoc split: option.splits)
  next
    case new
    with step st have s1: "stored1 = c # h # older" by simp
    from bounds new have "\<forall>x\<in>set cs. tstamp x < tstamp c" by fastforce
    from loop_all_older [OF this, of "h # older"] merge_head_self [of c "h # older"]
    show ?thesis by (simp add: s1 update_bars_loop_append)
  next
    case same
    with step st obtain m where m: "merge_head h c = Inr m" and s1: "stored1 = m # older"
      by (auto split: sum.splits)
    from m have ne: "subbars c \<noteq> []" "subbars h \<noteq> []"
      by (auto simp: merge_head_cases split: if_splits)
    have tm: "tstamp m = tstamp h" using tstamp_merge_head [OF m] same by simp
    from bounds ne(2) tm
    have fits: "\<forall>x\<in>set cs. tstamp x \<le> tstamp m \<and> (tstamp x = tstamp m \<longrightarrow> subbars x \<noteq> [])"
      by auto
    show ?thesis
    proof (cases "tstamp (last (subbars c)) = tstamp (last (subbars h))")
      case True
      with m ne have mc: "m = c" by (simp add: merge_head_cases)
      have vc: "same_view 0 c c" using ne(1) by (rule same_view_refl)
      from fits mc
      have "\<forall>x\<in>set cs. tstamp x \<le> tstamp c \<and> (tstamp x = tstamp c \<longrightarrow> subbars x \<noteq> [])"
        by simp
      from loop_same_bucket [OF this vc, of older]
      obtain X' Y' where l: "update_bars_loop (c # older) cs = (X' # older, None)"
        and v: "same_view 0 X' Y'" and t: "tstamp X' = tstamp c"
        and o: "tstamp (last (subbars X')) = tstamp (last (subbars c))"
        by blast
      from v have "subbars X' \<noteq> []" by (simp add: same_view_def)
      with ne(1) o t have "update_bars_step (X' # older) c = Inr (c # older)"
        by (simp add: merge_head_cases)
      with l show ?thesis by (simp add: s1 mc update_bars_loop_snoc)
    next
      case False
      with m ne have mr: "m = rebuilt h c" by (simp add: merge_head_cases)
      from same_view_rebuilt [OF ne same] mr
      have v: "same_view (tstamp (last (subbars c))) m h" by simp
      from loop_same_bucket [OF fits v, of older]
      obtain X' Y' where l: "update_bars_loop (m # older) cs = (X' # older, None)"
        and l': "update_bars_loop (h # older) cs = (Y' # older, None)"
        and v': "same_view (tstamp (last (subbars c))) X' Y'" and t: "tstamp X' = tstamp m"
        by blast
      from l' again have "Y' = h" by simp
      with v' merge_head_same_view [of c X' h] m have "merge_head X' c = Inr m" by simp
      with t tm same have "update_bars_step (X' # older) c = Inr (m # older)" by simp
      with l show ?thesis by (simp add: s1 update_bars_loop_snoc)
    qed
  qed
qed

lemma loop_raised:
  "update_bars_loop stored cs = (stored1, Some e) \<Longrightarrow>
     \<exists>xs c ys. cs = xs @ c # ys \<and> update_bars_loop stored xs = (stored1, None) \<and>
       update_bars_step stored1 c = Inl e"
proof (induction cs arbitrary: stored)
  case Nil
  then show ?case by simp
next
  case (Cons c cs)
  show ?case
  proof (cases "update_bars_step stored c")
    case (Inl e')
    with Cons.prems have "stored1 = stored" and "e' = e" by simp_all
    with Inl show ?thesis by (intro exI [of _ "[]"] exI [of _ c] exI [of _ cs]) simp
  next
    case (Inr stored')
    with Cons.prems have "update_bars_loop stored' cs = (stored1, Some e)" by simp
    from Cons.IH [OF this] obtain xs d ys where "cs = xs @ d # ys"
      and "update_bars_loop stored' xs = (stored1, None)"
      and "update_bars_step stored1 d = Inl e" by blast
    with Inr show ?thesis
      by (intro exI [of _ "c # xs"] exI [of _ d] exI [of _ ys]) simp
  qed
qed

lemma loop_again:
  "fst (update_bars_loop (fst (update_bars_loop stored cs)) cs) =
     fst (update_bars_loop stored cs)"
proof (cases "update_bars_loop stored cs")
  case (Pair stored1 r)
  show ?thesis
  proof (cases r)
    case None
    with Pair loop_again_returned [of stored cs stored1] show ?thesis by simp
  next
    case (Some e)
    with Pair loop_raised [of stored cs stored1 e]
    obtain xs c ys where cs: "cs = xs @ c # ys"
      and pre: "update_bars_loop stored xs = (stored1, None)"
      and step: "update_bars_step stored1 c = Inl e" by blast
    from loop_again_returned [OF pre]
    have "fst (update_bars_loop stored1 xs) = stored1" .
    then have "fst (update_bars_loop stored1 (xs @ c # ys)) = stored1"
      using step
      by (cases "update_bars_loop stored1 xs")
         (auto simp: update_bars_loop_append split: option.splits)
    with Pair cs show ?thesis by simp
  qed
qed

lemma length_update_bars_step:
  "update_bars_step stored b = Inr stored' \<Longrightarrow> length stored \<le> length stored'"
  by (cases stored) (auto split: if_splits sum.splits)

lemma length_update_bars_loop: "length stored \<le> length (fst (update_bars_loop stored cs))"
proof (induction cs arbitrary: stored)
  case Nil
  show ?case by simp
next
  case (Cons c cs)
  show ?case
  proof (cases "update_bars_step stored c")
    case (Inl e)
    then show ?thesis by simp
  next
    case (Inr stored')
    with length_update_bars_step [OF Inr] Cons [of stored'] show ?thesis by simp
  qed
qed

text \<open>
  C2. With ten or more bars held and the exchange answering the incremental fetch
  twice with the same batch (any batch, in any order), the bar sequence stored after
  the second \<^verbatim>\<open>update_bars\<close> is the one stored after the first. This holds also for
  a call that an exception ends: the sequence is compared as it stands then.
\<close>

theorem merge_idempotence:
  assumes "10 \<le> length (bars e)"
  shows "bars (fst (update_bars x (fst (update_bars x e)))) = bars (fst (update_bars x e))"
proof (cases "x_recent_bars x")
  case (Inl err)
  with assms show ?thesis by (simp add: bars_update_bars_incremental)
next
  case (Inr new_bars)
  with assms have once: "bars (fst (update_bars x e)) =
      fst (update_bars_loop (bars e) (rev new_bars))"
    by (simp add: bars_update_bars_incremental merge_incremental_def)
  with assms length_update_bars_loop [of "bars e" "rev new_bars"]
  have "10 \<le> length (bars (fst (update_bars x e)))" by simp
  then show ?thesis
    using Inr once loop_again [of "bars e" "rev new_bars"]
    by (simp add: bars_update_bars_incremental merge_incremental_def)
qed

theorem merge_idempotence_witness:
  "10 \<le> length (bars ex_engine) \<and>
   bars (fst (update_bars ex_exchange (fst (update_bars ex_exchange ex_engine)))) =
     bars (fst (update_bars ex_exchange ex_engine)) \<and>
   map (\<lambda>b. map tstamp (subbars b)) (take 2 (bars (fst (update_bars ex_exchange ex_engine)))) =
     [[1100], [1040, 1030, 1020, 1010, 1000]] \<and>
   10 \<le> length (bars ex_partial_engine) \<and>
   bars (fst (update_bars (ex_answer [ex_later])
     (fst (update_bars (ex_answer [ex_later]) ex_partial_engine)))) =
     bars (fst (update_bars (ex_answer [ex_later]) ex_partial_engine)) \<and>
   map tstamp (subbars (hd (bars (fst (update_bars (ex_answer [ex_later])
     ex_partial_engine))))) = [1040, 1030, 1020, 1010]"
proof -
  have 1: "10 \<le> length (bars ex_engine)"
    by (simp add: ex_engine_def length_ex_stored)
  have 2: "map (\<lambda>b. map tstamp (subbars b))
      (take 2 (bars (fst (update_bars ex_exchange ex_engine)))) =
     [[1100], [1040, 1030, 1020, 1010, 1000]]"
    by (simp add: update_bars_def ex_engine_def ex_exchange_def ex_stored_def ex_batch_def
          ex_bar_def ex_sub_def merge_incremental_def merge_head_def add_subbar_def Let_def)
  have 3: "10 \<le> length (bars ex_partial_engine)"
    by (simp add: ex_partial_engine_def ex_stored_def)
  have 4: "map tstamp (subbars (hd (bars (fst (update_bars (ex_answer [ex_later])
     ex_partial_engine))))) = [1040, 1030, 1020, 1010]"
    by (simp add: bars_update_bars_incremental [OF 3] ex_answer_def merge_incremental_def)
       (simp add: ex_partial_engine_def ex_later_def ex_head_def ex_bar_def ex_sub_def
          merge_head_def add_subbar_def Let_def)
  from merge_idempotence [OF 1, of ex_exchange]
       merge_idempotence [OF 3, of "ex_answer [ex_later]"] 1 2 3 4
  show ?thesis by simp
qed

section \<open>The merged subbars\<close>

lemma newest_first_sorted_wrt:
  "newest_first bs = sorted_wrt (\<lambda>x y. tstamp y < tstamp x) bs"
proof (induction bs rule: newest_first.induct)
  case 1
  show ?case by simp
next
  case (2 b)
  show ?case by simp
next
  case (3 b c bs)
  then show ?case by fastforce
qed

lemma sorted_wrt_butlast: "sorted_wrt P xs \<Longrightarrow> sorted_wrt P (butlast xs)"
  by (cases xs rule: rev_cases) (auto simp: sorted_wrt_append)

lemma takeWhile_oldest_first:
  "sorted_wrt (\<lambda>x y. tstamp x < tstamp y) xs \<Longrightarrow>
     takeWhile (\<lambda>s. tstamp s < t) xs = filter (\<lambda>s. tstamp s < t) xs"
proof (induction xs)
  case Nil
  show ?case by simp
next
  case (Cons x xs)
  show ?case
  proof (cases "tstamp x < t")
    case True
    with Cons show ?thesis by simp
  next
    case False
    with Cons.prems have "\<forall>y\<in>set xs. \<not> tstamp y < t" by auto
    then have "filter (\<lambda>s. tstamp s < t) xs = []" by (simp add: filter_empty_conv)
    with False show ?thesis by simp
  qed
qed

lemma picked_oldest_first:
  "sorted_wrt (\<lambda>x y. tstamp x < tstamp y) xs \<Longrightarrow>
     picked t xs = filter (\<lambda>s. t < tstamp s) xs"
proof (induction xs arbitrary: t)
  case Nil
  show ?case by simp
next
  case (Cons x xs)
  from Cons.prems have srt: "sorted_wrt (\<lambda>x y. tstamp x < tstamp y) xs"
    and newer: "\<forall>y\<in>set xs. tstamp x < tstamp y" by simp_all
  show ?case
  proof (cases "t < tstamp x")
    case True
    with newer have "filter (\<lambda>s. t < tstamp s) xs = filter (\<lambda>s. tstamp x < tstamp s) xs"
      by (intro filter_cong) auto
    with True Cons.IH [OF srt, of "tstamp x"] show ?thesis by simp
  next
    case False
    with Cons.IH [OF srt, of t] show ?thesis by simp
  qed
qed

lemma rev_kept_older:
  assumes "newest_first (subbars head)"
  shows "rev (kept_older head b) @ [last (subbars head)] = kept_subbars head b"
proof -
  from assms have "sorted_wrt (\<lambda>x y. tstamp y < tstamp x) (butlast (subbars head))"
    unfolding newest_first_sorted_wrt by (rule sorted_wrt_butlast)
  then have "sorted_wrt (\<lambda>x y. tstamp x < tstamp y) (older_rest head)"
    by (simp add: older_rest_def sorted_wrt_rev)
  from takeWhile_oldest_first [OF this]
  show ?thesis by (simp add: kept_older_def kept_subbars_def older_rest_def rev_filter)
qed

lemma rev_taken_newer:
  assumes "newest_first (subbars head)" and "newest_first (subbars b)"
  shows "rev (taken_newer head b) =
         filter (\<lambda>s. tstamp (hd (kept_subbars head b)) < tstamp s) (subbars b)"
proof -
  from assms(2) have "sorted_wrt (\<lambda>x y. tstamp x < tstamp y) (rev (subbars b))"
    by (simp add: newest_first_sorted_wrt sorted_wrt_rev)
  from picked_oldest_first [OF this]
  have "rev (taken_newer head b) =
      filter (\<lambda>s. tstamp (last (last (subbars head) # kept_older head b)) < tstamp s)
        (subbars b)"
    by (simp add: taken_newer_def rev_filter)
  also have "last (last (subbars head) # kept_older head b) =
      hd (rev (kept_older head b) @ [last (subbars head)])"
    by (simp only: hd_rev_append_single)
  finally show ?thesis by (simp only: rev_kept_older [OF assms(1)])
qed

lemma subbars_rebuilt_newest_first:
  assumes "newest_first (subbars head)" and "newest_first (subbars b)"
  shows "subbars (rebuilt head b) =
         filter (\<lambda>s. tstamp (hd (kept_subbars head b)) < tstamp s) (subbars b) @
         kept_subbars head b"
  using rev_taken_newer [OF assms] rev_kept_older [OF assms(1), of b]
  by (simp add: subbars_rebuilt)

lemma set_butlast_last: "xs \<noteq> [] \<Longrightarrow> set xs = set (butlast xs) \<union> {last xs}"
  by (cases xs rule: rev_cases) auto

lemma oldest_is_last:
  assumes "newest_first xs" and "s \<in> set (butlast xs)"
  shows "tstamp (last xs) < tstamp s"
proof (cases xs rule: rev_cases)
  case Nil
  with assms(2) show ?thesis by simp
next
  case (snoc ys y)
  with assms show ?thesis
    by (simp add: newest_first_sorted_wrt sorted_wrt_append)
qed

lemma oldest_is_least:
  assumes "newest_first xs" and "s \<in> set xs"
  shows "tstamp (last xs) \<le> tstamp s"
proof (cases xs rule: rev_cases)
  case Nil
  with assms(2) show ?thesis by simp
next
  case (snoc ys y)
  with assms show ?thesis
    by (auto simp: newest_first_sorted_wrt sorted_wrt_append)
qed

lemma newest_first_kept_subbars:
  assumes "newest_first (subbars head)"
  shows "newest_first (kept_subbars head b)"
proof -
  from assms have "sorted_wrt (\<lambda>x y. tstamp y < tstamp x) (butlast (subbars head))"
    unfolding newest_first_sorted_wrt by (rule sorted_wrt_butlast)
  then have "sorted_wrt (\<lambda>x y. tstamp y < tstamp x)
      (filter (\<lambda>s. tstamp s < tstamp (last (subbars b))) (butlast (subbars head)))"
    by (rule sorted_wrt_filter)
  with oldest_is_last [OF assms] show ?thesis
    by (simp add: newest_first_sorted_wrt kept_subbars_def sorted_wrt_append)
qed

lemma hd_is_newest:
  assumes "newest_first xs" and "s \<in> set xs"
  shows "tstamp s \<le> tstamp (hd xs)"
  using assms by (cases xs) (auto simp: newest_first_sorted_wrt)

lemma newest_first_distinct: "newest_first xs \<Longrightarrow> distinct (map tstamp xs)"
  unfolding newest_first_sorted_wrt by (induction xs) auto

lemma set_kept_subbars: "subbars head \<noteq> [] \<Longrightarrow> set (kept_subbars head b) \<subseteq> set (subbars head)"
  by (auto simp: kept_subbars_def dest: in_set_butlastD)

lemma newest_first_merged:
  assumes "newest_first (subbars head)" and "newest_first (subbars b)"
  shows "newest_first
           (filter (\<lambda>s. tstamp (hd (kept_subbars head b)) < tstamp s) (subbars b) @
            kept_subbars head b)"
proof -
  let ?k = "kept_subbars head b"
  let ?f = "filter (\<lambda>s. tstamp (hd ?k) < tstamp s) (subbars b)"
  have 1: "sorted_wrt (\<lambda>x y. tstamp y < tstamp x) ?f"
    using assms(2) unfolding newest_first_sorted_wrt by (rule sorted_wrt_filter)
  have 2: "sorted_wrt (\<lambda>x y. tstamp y < tstamp x) ?k"
    using newest_first_kept_subbars [OF assms(1), of b]
    by (simp only: newest_first_sorted_wrt)
  have 3: "\<forall>x\<in>set ?f. \<forall>y\<in>set ?k. tstamp y < tstamp x"
  proof (intro ballI)
    fix x y
    assume "x \<in> set ?f" and y: "y \<in> set ?k"
    then have "tstamp (hd ?k) < tstamp x" by simp
    moreover from hd_is_newest [OF newest_first_kept_subbars [OF assms(1), of b] y]
    have "tstamp y \<le> tstamp (hd ?k)" .
    ultimately show "tstamp y < tstamp x" by (rule le_less_trans [rotated])
  qed
  from 1 2 3 show ?thesis
    by (simp only: newest_first_sorted_wrt sorted_wrt_append)
qed

lemma merged_union:
  assumes "newest_first (subbars head)" and "newest_first (subbars b)"
    and "subbars head \<noteq> []"
    and "tstamp (last (subbars head)) < tstamp (last (subbars b))"
    and "\<forall>s\<in>set (subbars head).
           tstamp (last (subbars b)) \<le> tstamp s \<longrightarrow> tstamp s \<in> tstamp ` set (subbars b)"
  shows "tstamp ` set
           (filter (\<lambda>s. tstamp (hd (kept_subbars head b)) < tstamp s) (subbars b) @
            kept_subbars head b) =
         tstamp ` set (subbars head) \<union> tstamp ` set (subbars b)"
proof -
  let ?tb = "tstamp (last (subbars b))"
  have kept_old: "tstamp s < ?tb" if "s \<in> set (kept_subbars head b)" for s
    using that assms(4) by (auto simp: kept_subbars_def)
  have "hd (kept_subbars head b) \<in> set (kept_subbars head b)"
    by (rule hd_in_set) (simp add: kept_subbars_def)
  from kept_old [OF this] oldest_is_least [OF assms(2)]
  have "\<forall>s\<in>set (subbars b). tstamp (hd (kept_subbars head b)) < tstamp s"
    by fastforce
  then have all: "filter (\<lambda>s. tstamp (hd (kept_subbars head b)) < tstamp s) (subbars b) =
      subbars b"
    by (simp add: filter_id_conv)
  have "tstamp s \<in> tstamp ` set (kept_subbars head b) \<union> tstamp ` set (subbars b)"
    if s: "s \<in> set (subbars head)" for s
  proof (cases "tstamp s < ?tb")
    case True
    from s set_butlast_last [OF assms(3)]
    have "s \<in> set (butlast (subbars head)) \<or> s = last (subbars head)"
      by auto
    with True have "s \<in> set (kept_subbars head b)"
      by (auto simp: kept_subbars_def)
    then show ?thesis by blast
  next
    case False
    with assms(5) s show ?thesis by auto
  qed
  with set_kept_subbars [OF assms(3), of b] show ?thesis
    unfolding all by auto
qed

text \<open>
  C1, as the code has it. An incoming bar that has the stored head's bucket timestamp
  and an oldest subbar (\<^verbatim>\<open>subbars[-1]\<close>) at another time than the head's is merged.
  With both bars' subbars stored newest first, strictly decreasing in time, the merged
  head consists of the head's oldest subbar, the head's subbars older than the
  incoming bar's oldest subbar, and on top of those the incoming bar's subbars newer
  than all of them. It is strictly decreasing in time, so without a duplicate
  timestamp, and every subbar comes from one of the two bars. Its timestamps are the
  union of the two bars' timestamps when the incoming bar's oldest subbar is newer
  than the head's oldest and every subbar of the head that is not older than it has
  its timestamp among the incoming bar's.
\<close>

theorem merged_subbars:
  assumes "tstamp b = tstamp head"
    and "subbars b \<noteq> []" and "subbars head \<noteq> []"
    and "tstamp (last (subbars b)) \<noteq> tstamp (last (subbars head))"
    and "newest_first (subbars head)" and "newest_first (subbars b)"
  shows "\<exists>merged. update_bars_step (head # older) b = Inr (merged # older) \<and>
           subbars merged =
             filter (\<lambda>s. tstamp (hd (kept_subbars head b)) < tstamp s) (subbars b) @
             kept_subbars head b \<and>
           newest_first (subbars merged) \<and> distinct (map tstamp (subbars merged)) \<and>
           set (subbars merged) \<subseteq> set (subbars head) \<union> set (subbars b) \<and>
           (tstamp (last (subbars head)) < tstamp (last (subbars b)) \<and>
            (\<forall>s\<in>set (subbars head). tstamp (last (subbars b)) \<le> tstamp s \<longrightarrow>
               tstamp s \<in> tstamp ` set (subbars b)) \<longrightarrow>
            tstamp ` set (subbars merged) =
              tstamp ` set (subbars head) \<union> tstamp ` set (subbars b))"
proof -
  let ?m = "rebuilt head b"
  have step: "update_bars_step (head # older) b = Inr (?m # older)"
    using assms(1-4) by (simp add: merge_head_cases)
  have sb: "subbars ?m =
      filter (\<lambda>s. tstamp (hd (kept_subbars head b)) < tstamp s) (subbars b) @
      kept_subbars head b"
    by (rule subbars_rebuilt_newest_first [OF assms(5,6)])
  have nf: "newest_first (subbars ?m)"
    unfolding sb by (rule newest_first_merged [OF assms(5,6)])
  have sub: "set (subbars ?m) \<subseteq> set (subbars head) \<union> set (subbars b)"
    unfolding sb using set_kept_subbars [OF assms(3), of b] by auto
  have un: "tstamp ` set (subbars ?m) = tstamp ` set (subbars head) \<union> tstamp ` set (subbars b)"
    if "tstamp (last (subbars head)) < tstamp (last (subbars b))"
      and "\<forall>s\<in>set (subbars head). tstamp (last (subbars b)) \<le> tstamp s \<longrightarrow>
             tstamp s \<in> tstamp ` set (subbars b)"
    unfolding sb by (rule merged_union [OF assms(5,6,3) that])
  from step sb nf newest_first_distinct [OF nf] sub un show ?thesis
    by (intro exI [of _ ?m]) (simp del: set_append)
qed

lemma ex_merge_case:
  "tstamp ex_later = tstamp ex_head" "subbars ex_later \<noteq> []" "subbars ex_head \<noteq> []"
  "tstamp (last (subbars ex_later)) \<noteq> tstamp (last (subbars ex_head))"
  "newest_first (subbars ex_head)" "newest_first (subbars ex_later)"
  by (simp_all add: ex_later_def ex_head_def ex_bar_def ex_sub_def)

theorem merged_subbars_witness:
  "tstamp ex_later = tstamp ex_head \<and> subbars ex_later \<noteq> [] \<and> subbars ex_head \<noteq> [] \<and>
   tstamp (last (subbars ex_later)) \<noteq> tstamp (last (subbars ex_head)) \<and>
   newest_first (subbars ex_head) \<and> newest_first (subbars ex_later) \<and>
   tstamp (last (subbars ex_head)) < tstamp (last (subbars ex_later)) \<and>
   (\<exists>merged. update_bars_step (ex_head # tl ex_stored) ex_later = Inr (merged # tl ex_stored) \<and>
      map tstamp (subbars merged) = [1040, 1030, 1020, 1010] \<and>
      tstamp ` set (subbars merged) =
        tstamp ` set (subbars ex_head) \<union> tstamp ` set (subbars ex_later))"
proof -
  have older: "tstamp (last (subbars ex_head)) < tstamp (last (subbars ex_later))"
    by (simp add: ex_later_def ex_head_def ex_bar_def ex_sub_def)
  have covered: "\<forall>s\<in>set (subbars ex_head). tstamp (last (subbars ex_later)) \<le> tstamp s \<longrightarrow>
      tstamp s \<in> tstamp ` set (subbars ex_later)"
    by (simp add: ex_later_def ex_head_def ex_bar_def ex_sub_def)
  have shape: "map tstamp
      (filter (\<lambda>s. tstamp (hd (kept_subbars ex_head ex_later)) < tstamp s) (subbars ex_later) @
       kept_subbars ex_head ex_later) = [1040, 1030, 1020, 1010]"
    by (simp add: kept_subbars_def ex_later_def ex_head_def ex_bar_def ex_sub_def)
  from merged_subbars [OF ex_merge_case, of "tl ex_stored"]
  obtain merged
    where "update_bars_step (ex_head # tl ex_stored) ex_later = Inr (merged # tl ex_stored)"
      and "subbars merged =
        filter (\<lambda>s. tstamp (hd (kept_subbars ex_head ex_later)) < tstamp s) (subbars ex_later) @
        kept_subbars ex_head ex_later"
      and "tstamp (last (subbars ex_head)) < tstamp (last (subbars ex_later)) \<and>
        (\<forall>s\<in>set (subbars ex_head). tstamp (last (subbars ex_later)) \<le> tstamp s \<longrightarrow>
           tstamp s \<in> tstamp ` set (subbars ex_later)) \<longrightarrow>
        tstamp ` set (subbars merged) =
          tstamp ` set (subbars ex_head) \<union> tstamp ` set (subbars ex_later)"
    by blast
  with older covered shape
  have "update_bars_step (ex_head # tl ex_stored) ex_later = Inr (merged # tl ex_stored) \<and>
      map tstamp (subbars merged) = [1040, 1030, 1020, 1010] \<and>
      tstamp ` set (subbars merged) =
        tstamp ` set (subbars ex_head) \<union> tstamp ` set (subbars ex_later)"
    by simp
  then have "\<exists>merged.
      update_bars_step (ex_head # tl ex_stored) ex_later = Inr (merged # tl ex_stored) \<and>
      map tstamp (subbars merged) = [1040, 1030, 1020, 1010] \<and>
      tstamp ` set (subbars merged) =
        tstamp ` set (subbars ex_head) \<union> tstamp ` set (subbars ex_later)" ..
  with ex_merge_case older show ?thesis by simp
qed

text \<open>
  The claim C1 as it is written fails where the incoming bar starts earlier than the
  stored head: the head holds the subbars at 1020 and 1010, the incoming bar those at
  1020, 1010 and 1000, and the merged head holds 1020 and 1010: the subbar at 1000
  is lost.
\<close>

theorem merged_subbars_counterexample:
  "10 \<le> length (bars ex_partial_engine) \<and> hd (bars ex_partial_engine) = ex_head \<and>
   x_recent_bars (ex_answer [ex_earlier]) = Inr [ex_earlier] \<and>
   tstamp ex_earlier = tstamp ex_head \<and>
   tstamp (last (subbars ex_earlier)) \<noteq> tstamp (last (subbars ex_head)) \<and>
   map tstamp (subbars ex_head) = [1020, 1010] \<and>
   map tstamp (subbars ex_earlier) = [1020, 1010, 1000] \<and>
   map tstamp (subbars (hd (bars (fst (update_bars (ex_answer [ex_earlier])
     ex_partial_engine))))) = [1020, 1010] \<and>
   set (map tstamp (subbars (hd (bars (fst (update_bars (ex_answer [ex_earlier])
     ex_partial_engine)))))) \<noteq>
     set (map tstamp (subbars ex_head)) \<union> set (map tstamp (subbars ex_earlier))"
proof -
  have len: "10 \<le> length (bars ex_partial_engine)"
    by (simp add: ex_partial_engine_def ex_stored_def)
  have inputs: "hd (bars ex_partial_engine) = ex_head"
    "x_recent_bars (ex_answer [ex_earlier]) = Inr [ex_earlier]"
    "tstamp ex_earlier = tstamp ex_head"
    "tstamp (last (subbars ex_earlier)) \<noteq> tstamp (last (subbars ex_head))"
    "map tstamp (subbars ex_head) = [1020, 1010]"
    "map tstamp (subbars ex_earlier) = [1020, 1010, 1000]"
    by (simp_all add: ex_partial_engine_def ex_answer_def ex_earlier_def ex_head_def
          ex_bar_def ex_sub_def)
  have merged: "map tstamp (subbars (hd (bars (fst (update_bars (ex_answer [ex_earlier])
     ex_partial_engine))))) = [1020, 1010]"
    by (simp add: bars_update_bars_incremental [OF len] inputs(2) merge_incremental_def)
       (simp add: ex_partial_engine_def ex_earlier_def ex_head_def ex_bar_def ex_sub_def
          merge_head_def add_subbar_def Let_def)
  have lost: "(1000::int) \<notin> set [1020, 1010]" and held: "(1000::int) \<in> set [1020, 1010, 1000]"
    by simp_all
  have "set (map tstamp (subbars (hd (bars (fst (update_bars (ex_answer [ex_earlier])
     ex_partial_engine)))))) \<noteq>
     set (map tstamp (subbars ex_head)) \<union> set (map tstamp (subbars ex_earlier))"
    using lost held unfolding merged inputs(5,6) by blast
  with len inputs merged show ?thesis by (intro conjI)
qed

end
